theory Spec2Isabelle
  imports Main "HOL-Library.Word"
begin

unbundle bit_operations_syntax

section \<open>The operating-system interface seen by libjio\<close>

text \<open>
  libjio keeps three kinds of files: the data file (\<open>fs->fd\<close>), the lock file of the
  journal directory (\<open>fs->jfd\<close>), whose first four bytes hold the transaction counter,
  and one record file per transaction, named by the decimal form of its id.

  The kernel is modelled by a \<open>world\<close> record that is passed through every call. The
  system calls whose result the C code tests (\<open>pread\<close>, \<open>pwrite\<close>, \<open>open\<close>,
  \<open>malloc\<close>, \<open>strdup\<close>, \<open>mmap\<close>, the try-lock) take their outcome from the list
  \<open>outcomes\<close>, one entry per call, in call order; when the list is exhausted the call
  completes in full. The calls whose result the C code ignores (\<open>ftruncate\<close>,
  \<open>fsync\<close>, \<open>unlink\<close>, \<open>close\<close>, \<open>lseek\<close>, the blocking \<open>fcntl\<close> locks) are
  modelled as succeeding. Mutexes and blocking are not modelled: one thread runs.
\<close>

type_synonym byte = "8 word"
type_synonym u32 = "32 word"

datatype outcome = Fail | Short nat | Full

datatype fdesc = DataFd | LockFd | RecFd u32

record world =
  dfile :: "byte list"
  dpos :: nat
  dlocks :: "(nat \<times> nat) set"
  nolock :: bool
  jfile :: "byte list"
  jlocked :: bool
  recs :: "u32 \<Rightarrow> byte list option"
  ropen :: "u32 set"
  fresh :: "nat \<Rightarrow> byte"
  outcomes :: "outcome list"

text \<open>
  \<open>dfile\<close>: contents of the data file; \<open>dpos\<close>: its file offset (\<open>lseek\<close>);
  \<open>dlocks\<close>: the byte ranges \<open>(offset, len)\<close> this process holds locked on it;
  \<open>nolock\<close>: \<open>fs->flags & J_NOLOCK\<close>; \<open>jfile\<close>: contents of the lock file;
  \<open>jlocked\<close>: the whole-file lock on it; \<open>recs\<close>: the record files of the journal
  directory by id (the name is the \<open>%d\<close> form of the id, so distinct 32-bit ids are
  distinct names); \<open>ropen\<close>: the ids whose record file this process holds open;
  \<open>fresh\<close>: the bytes found in memory that \<open>malloc\<close> hands out, which C leaves
  uninitialised (byte \<open>i\<close> of a new buffer is \<open>fresh s i\<close>).
\<close>

definition pop :: "world \<Rightarrow> outcome \<times> world" where
  "pop s = (case outcomes s of [] \<Rightarrow> (Full, s) | x # xs \<Rightarrow> (x, s\<lparr>outcomes := xs\<rparr>))"

text \<open>Bytes transferred by one successful \<open>pread\<close>/\<open>pwrite\<close> of \<open>n\<close> bytes: all of
  them, or at least one and at most \<open>k + 1\<close> on a short transfer.\<close>

fun xfer :: "outcome \<Rightarrow> nat \<Rightarrow> nat" where
  "xfer Full n = n"
| "xfer (Short k) n = min n (Suc k)"
| "xfer Fail n = 0"

fun fd_file :: "world \<Rightarrow> fdesc \<Rightarrow> byte list option" where
  "fd_file s DataFd = Some (dfile s)"
| "fd_file s LockFd = Some (jfile s)"
| "fd_file s (RecFd i) = recs s i"

fun fd_put :: "fdesc \<Rightarrow> byte list \<Rightarrow> world \<Rightarrow> world" where
  "fd_put DataFd f s = s\<lparr>dfile := f\<rparr>"
| "fd_put LockFd f s = s\<lparr>jfile := f\<rparr>"
| "fd_put (RecFd i) f s = s\<lparr>recs := (recs s)(i \<mapsto> f)\<rparr>"

text \<open>Writing \<open>bs\<close> at offset \<open>off\<close>: a gap between the end of the file and \<open>off\<close> reads
  as zero bytes; writing nothing changes nothing.\<close>

definition file_write :: "byte list \<Rightarrow> byte list \<Rightarrow> nat \<Rightarrow> byte list" where
  "file_write f bs off =
     (if bs = [] then f
      else take off f @ replicate (off - length f) 0 @ bs @ drop (off + length bs) f)"

definition file_truncate :: "byte list \<Rightarrow> nat \<Rightarrow> byte list" where
  "file_truncate f n = take n f @ replicate (n - length f) 0"

definition pwrite :: "world \<Rightarrow> fdesc \<Rightarrow> byte list \<Rightarrow> nat \<Rightarrow> int \<times> world" where
  "pwrite s fd bs off =
     (case pop s of (oc, s1) \<Rightarrow>
        (case fd_file s1 fd of
           None \<Rightarrow> (- 1, s1)
         | Some f \<Rightarrow>
             if oc = Fail then (- 1, s1)
             else let k = xfer oc (length bs)
                  in (int k, fd_put fd (file_write f (take k bs) off) s1)))"

definition pread :: "world \<Rightarrow> fdesc \<Rightarrow> nat \<Rightarrow> nat \<Rightarrow> int \<times> byte list \<times> world" where
  "pread s fd n off =
     (case pop s of (oc, s1) \<Rightarrow>
        (case fd_file s1 fd of
           None \<Rightarrow> (- 1, [], s1)
         | Some f \<Rightarrow>
             if oc = Fail then (- 1, [], s1)
             else let avail = take n (drop off f);
                      k = xfer oc (length avail)
                  in (int k, take k avail, s1)))"

subsection \<open>\<open>spread\<close> and \<open>spwrite\<close>\<close>

text \<open>
  \<^verbatim>\<open>
  c = 0;
  while (c < count) {
      rv = pread(fd, buf + c, count - c, offset + c);
      if (rv == count) return count;
      else if (rv < 0) return rv;
      else if (rv == 0) return c;
      c += rv;
  }
  return count;
  \<close>
  The buffer is passed in and returned with the bytes read so far stored at its front.
  \<open>c\<close> and \<open>rv\<close> are C \<open>int\<close>s. They are modelled without overflow, which is exact as
  long as \<open>count\<close> is below \<open>2^31\<close>; the results on transactions below carry that bound
  on the lengths they pass, and the counter of the lock file is four bytes.
\<close>

function spread_loop ::
  "world \<Rightarrow> fdesc \<Rightarrow> byte list \<Rightarrow> nat \<Rightarrow> nat \<Rightarrow> nat \<Rightarrow> int \<times> byte list \<times> world" where
  "spread_loop s fd buf count off c =
     (if c < count then
        (case pread s fd (count - c) (off + c) of (rv, bs, s') \<Rightarrow>
           (let buf' = take c buf @ bs @ drop (c + length bs) buf in
            if rv = int count then (int count, buf', s')
            else if rv < 0 then (rv, buf', s')
            else if rv = 0 then (int c, buf', s')
            else spread_loop s' fd buf' count off (c + nat rv)))
      else (int count, buf, s))"
  by pat_completeness auto
termination
  by (relation "measure (\<lambda>(s, fd, buf, count, off, c). count - c)") auto

definition spread :: "world \<Rightarrow> fdesc \<Rightarrow> byte list \<Rightarrow> nat \<Rightarrow> nat \<Rightarrow> int \<times> byte list \<times> world" where
  "spread s fd buf count off = spread_loop s fd buf count off 0"

text \<open>
  \<^verbatim>\<open>
  c = 0;
  while (c < count) {
      rv = pwrite(fd, buf + c, count - c, offset + c);
      if (rv == count) return count;
      else if (rv <= 0) return rv;
      c += rv;
  }
  return count;
  \<close>
  As in \<open>spread\<close>, \<open>c\<close> and \<open>rv\<close> are C \<open>int\<close>s and the model is exact for \<open>count\<close> below
  \<open>2^31\<close>.
\<close>

function spwrite_loop ::
  "world \<Rightarrow> fdesc \<Rightarrow> byte list \<Rightarrow> nat \<Rightarrow> nat \<Rightarrow> nat \<Rightarrow> int \<times> world" where
  "spwrite_loop s fd buf count off c =
     (if c < count then
        (case pwrite s fd (take (count - c) (drop c buf)) (off + c) of (rv, s') \<Rightarrow>
           if rv = int count then (int count, s')
           else if rv \<le> 0 then (rv, s')
           else spwrite_loop s' fd buf count off (c + nat rv))
      else (int count, s))"
  by pat_completeness auto
termination
  by (relation "measure (\<lambda>(s, fd, buf, count, off, c). count - c)") auto

definition spwrite :: "world \<Rightarrow> fdesc \<Rightarrow> byte list \<Rightarrow> nat \<Rightarrow> nat \<Rightarrow> int \<times> world" where
  "spwrite s fd buf count off = spwrite_loop s fd buf count off 0"


section \<open>Transaction ids (\<open>get_tid\<close>, \<open>free_tid\<close> of libjio.c)\<close>

text \<open>An \<open>unsigned int\<close> in memory, and so in the lock file: four bytes, least
  significant first. \<open>le_bytes n v\<close> are the \<open>n\<close> low bytes of a number, \<open>le_val\<close> reads
  bytes back as a number and \<open>le_word\<close> as a 32-bit word.\<close>

fun le_bytes :: "nat \<Rightarrow> nat \<Rightarrow> byte list" where
  "le_bytes 0 v = []"
| "le_bytes (Suc n) v = of_nat (v mod 256) # le_bytes n (v div 256)"

fun le_val :: "byte list \<Rightarrow> nat" where
  "le_val [] = 0"
| "le_val (b # bs) = unat b + 256 * le_val bs"

definition le32 :: "u32 \<Rightarrow> byte list" where
  "le32 w = le_bytes 4 (unat w)"

fun le_word :: "byte list \<Rightarrow> u32" where
  "le_word [] = 0"
| "le_word (b # bs) = ucast b + 256 * le_word bs"

definition le32_dec :: "byte list \<Rightarrow> u32" where
  "le32_dec bs = le_word (take 4 bs)"

text \<open>
  \<^verbatim>\<open>
  plockf(fs->jfd, F_LOCK, 0, 0);
  r = spread(fs->jfd, &curid, sizeof(curid), 0);
  if (r != sizeof(curid)) { rv = 0; goto exit; }
  rv = curid + 1;
  if (rv == 0) rv = 1;
  r = spwrite(fs->jfd, &rv, sizeof(rv), 0);
  if (r != sizeof(curid)) { rv = 0; goto exit; }
  exit:
  plockf(fs->jfd, F_ULOCK, 0, 0);
  return rv;
  \<close>
  \<open>curid\<close> is \<open>unsigned int\<close>, so \<open>curid + 1\<close> wraps at \<open>2^32\<close>; \<open>rv\<close> is an \<open>int\<close> with
  the same 32 bits, returned as \<open>unsigned int\<close>.
\<close>

definition get_tid :: "world \<Rightarrow> u32 \<times> world" where
  "get_tid s =
     (let s1 = s\<lparr>jlocked := True\<rparr> in
      case spread s1 LockFd (replicate 4 0) 4 0 of (r, cb, s2) \<Rightarrow>
        if r \<noteq> 4 then (0, s2\<lparr>jlocked := False\<rparr>)
        else
          let curid = le32_dec cb;
              rv = (if curid + 1 = 0 then 1 else curid + 1)
          in case spwrite s2 LockFd (le32 rv) 4 0 of (r', s3) \<Rightarrow>
               if r' \<noteq> 4 then (0, s3\<lparr>jlocked := False\<rparr>)
               else (rv, s3\<lparr>jlocked := False\<rparr>))"

text \<open>
  The downward scan of \<open>free_tid\<close>:
  \<^verbatim>\<open>
  for (i = curid - 1; i > 0; i--) {
      get_jtfile(fs->name, i, name);
      if (access(name, R_OK | W_OK) == 0) { curid = i; break; }
  }
  \<close>
  \<open>tid_scan r n\<close> is the value of \<open>i\<close> when the loop that starts at \<open>i = n\<close> ends.
  \<open>access\<close> succeeds when the record file exists (record files are created with mode
  0600 by the same user). The result of \<open>get_jtfile\<close> is ignored by the C code here and
  the call is taken to succeed.
\<close>

fun tid_scan :: "(u32 \<Rightarrow> byte list option) \<Rightarrow> nat \<Rightarrow> nat" where
  "tid_scan r 0 = 0"
| "tid_scan r (Suc n) = (if r (of_nat (Suc n)) \<noteq> None then Suc n else tid_scan r n)"

text \<open>
  \<^verbatim>\<open>
  plockf(fs->jfd, F_LOCK, 0, 0);
  r = spread(fs->jfd, &curid, sizeof(curid), 0);
  if (r != sizeof(curid)) goto exit;
  if (tid < curid) goto exit;
  else {
      for (...) ...
      r = spwrite(fs->jfd, &i, sizeof(i), 0);
      if (r != sizeof(curid)) goto exit;
  }
  exit:
  plockf(fs->jfd, F_ULOCK, 0, 0);
  \<close>
\<close>

definition free_tid :: "world \<Rightarrow> u32 \<Rightarrow> world" where
  "free_tid s tid =
     (let s1 = s\<lparr>jlocked := True\<rparr> in
      case spread s1 LockFd (replicate 4 0) 4 0 of (r, cb, s2) \<Rightarrow>
        if r \<noteq> 4 then s2\<lparr>jlocked := False\<rparr>
        else
          let curid = le32_dec cb in
          if tid < curid then s2\<lparr>jlocked := False\<rparr>
          else
            let i = (of_nat (tid_scan (recs s2) (unat (curid - 1))) :: u32)
            in case spwrite s2 LockFd (le32 i) 4 0 of (r', s3) \<Rightarrow> s3\<lparr>jlocked := False\<rparr>)"


section \<open>Transactions (libjio.c)\<close>

text \<open>
  \<open>struct jtrans\<close> as \<open>jtrans_init\<close>, \<open>jtrans_commit\<close> and \<open>jtrans_rollback\<close> use it.
  \<open>tid\<close> is \<open>ts->id\<close>; \<open>name\<close> is the record file's path, kept as the id it names
  (\<open>None\<close> is \<open>NULL\<close>); \<open>buf\<close> holds the bytes \<open>ts->buf\<close> points to (\<open>[]\<close> for \<open>NULL\<close>)
  and \<open>len\<close> is \<open>ts->len\<close>; \<open>udata\<close> and \<open>pdata\<close> are \<open>None\<close> for \<open>NULL\<close>. The
  pointer \<open>ts->fs\<close> is the \<open>world\<close> that is passed along.
\<close>

record jtrans =
  tid :: u32
  name :: "u32 option"
  flags :: u32
  buf :: "byte list"
  len :: nat
  offset :: nat
  udata :: "byte list option"
  ulen :: nat
  pdata :: "byte list option"
  plen :: nat

text \<open>Modelled from the spec: the macros \<open>J_COMMITED\<close> and \<open>J_DISKTFIXSIZE\<close> of
  libjio.h, which is not among the sources. The spec lists COMMITTED as one of the
  transaction flag bits; bit 0 is taken. \<open>jtrans_commit\<close> fills the fixed part of a record
  with 4 + 4 + 4 + 4 + 8 bytes, which gives 24.\<close>

definition J_COMMITED :: u32 where
  "J_COMMITED = 1"

definition J_DISKTFIXSIZE :: nat where
  "J_DISKTFIXSIZE = 24"

definition jtrans_init :: jtrans where
  "jtrans_init =
     \<lparr>tid = 0, name = None, flags = 0, buf = [], len = 0, offset = 0,
      udata = None, ulen = 0, pdata = None, plen = 0\<rparr>"

text \<open>The fixed part of a record as \<open>jtrans_commit\<close> lays it out (lines 300-315): id,
  flags, len, ulen in four bytes each, offset in eight.\<close>

definition disk_head :: "jtrans \<Rightarrow> byte list" where
  "disk_head ts =
     le_bytes 4 (unat (tid ts)) @ le_bytes 4 (unat (flags ts)) @ le_bytes 4 (len ts) @
     le_bytes 4 (ulen ts) @ le_bytes 8 (offset ts)"

text \<open>
  The label \<open>exit\<close> of \<open>jtrans_commit\<close>:
  \<^verbatim>\<open>
  exit:
  close(fd);
  if (!(ts->fs->flags & J_NOLOCK))
      plockf(ts->fs->fd, F_ULOCK, ts->offset, ts->len);
  if (ts->flags & J_COMMITED) return ts->len;
  else return -1;
  \<close>
\<close>

definition commit_exit :: "u32 \<Rightarrow> jtrans \<Rightarrow> world \<Rightarrow> int \<times> jtrans \<times> world" where
  "commit_exit fd ts s =
     (let s1 = s\<lparr>ropen := ropen s - {fd}\<rparr>;
          s2 = (if nolock s1 then s1
                else s1\<lparr>dlocks := dlocks s1 - {(offset ts, len ts)}\<rparr>)
      in (if flags ts AND J_COMMITED \<noteq> 0 then int (len ts) else - 1, ts, s2))"

text \<open>
  Lines 294-359: the record is built in the record file \<open>fd\<close>. The result is \<open>False\<close>
  where the C code jumps to \<open>exit\<close>. The buffer that \<open>malloc(ts->len)\<close> returns for
  \<open>ts->pdata\<close> is not initialised: it holds the bytes \<open>fresh\<close> of the world, and what
  \<open>spread\<close> does not overwrite goes to the record as it is.
  \<^verbatim>\<open>
  rv = spwrite(fd, buf_init, J_DISKTFIXSIZE, 0);
  if (rv != J_DISKTFIXSIZE) goto exit;
  if (ts->udata) {
      rv = spwrite(fd, ts->udata, ts->ulen, J_DISKTFIXSIZE);
      if (rv != ts->ulen) goto exit;
  }
  ts->pdata = malloc(ts->len);
  if (ts->pdata == NULL) goto exit;
  ts->plen = ts->len;
  rv = spread(ts->fs->fd, ts->pdata, ts->len, ts->offset);
  if (rv < 0) goto exit;
  if (rv < ts->len) {
      ftruncate(ts->fs->fd, ts->offset + ts->len);
      ts->plen = rv;
  }
  t = J_DISKTFIXSIZE + ts->ulen;
  rv = spwrite(fd, ts->pdata, ts->len, t);
  if (rv != ts->len) goto exit;
  t = J_DISKTFIXSIZE + ts->ulen + ts->plen;
  rv = spwrite(fd, ts->buf, ts->len, t);
  if (rv != ts->len) goto exit;
  \<close>
\<close>

definition commit_write_udata :: "u32 \<Rightarrow> jtrans \<Rightarrow> world \<Rightarrow> bool \<times> world" where
  "commit_write_udata fd ts s =
     (case udata ts of
        None \<Rightarrow> (True, s)
      | Some ud \<Rightarrow>
          (case spwrite s (RecFd fd) ud (ulen ts) J_DISKTFIXSIZE of
             (rv, s') \<Rightarrow> (rv = int (ulen ts), s')))"

definition commit_save_prev :: "jtrans \<Rightarrow> world \<Rightarrow> bool \<times> jtrans \<times> world" where
  "commit_save_prev ts s =
     (case pop s of (m, s1) \<Rightarrow>
        if m = Fail then (False, ts\<lparr>pdata := None\<rparr>, s1)
        else
          (case spread s1 DataFd (map (fresh s1) [0..<len ts]) (len ts) (offset ts) of
             (rv, pd, s2) \<Rightarrow>
               let ts1 = ts\<lparr>pdata := Some pd, plen := len ts\<rparr> in
               if rv < 0 then (False, ts1, s2)
               else if rv < int (len ts) then
                 (True, ts1\<lparr>plen := nat rv\<rparr>,
                  s2\<lparr>dfile := file_truncate (dfile s2) (offset ts + len ts)\<rparr>)
               else (True, ts1, s2)))"

definition commit_build :: "u32 \<Rightarrow> jtrans \<Rightarrow> world \<Rightarrow> bool \<times> jtrans \<times> world" where
  "commit_build fd ts s =
     (case spwrite s (RecFd fd) (disk_head ts) J_DISKTFIXSIZE 0 of (rv, s1) \<Rightarrow>
        if rv \<noteq> int J_DISKTFIXSIZE then (False, ts, s1)
        else
          (case commit_write_udata fd ts s1 of (ok, s2) \<Rightarrow>
             if \<not> ok then (False, ts, s2)
             else
               (case commit_save_prev ts s2 of (ok', ts1, s3) \<Rightarrow>
                  if \<not> ok' then (False, ts1, s3)
                  else
                    (case spwrite s3 (RecFd fd) (case pdata ts1 of None \<Rightarrow> [] | Some pd \<Rightarrow> pd)
                            (len ts1) (J_DISKTFIXSIZE + ulen ts1) of
                       (rv', s4) \<Rightarrow>
                         if rv' \<noteq> int (len ts1) then (False, ts1, s4)
                         else
                           (case spwrite s4 (RecFd fd) (buf ts1) (len ts1)
                                   (J_DISKTFIXSIZE + ulen ts1 + plen ts1) of
                              (rv'', s5) \<Rightarrow> (rv'' = int (len ts1), ts1, s5))))))"

text \<open>
  Lines 366-379, after the record is complete:
  \<^verbatim>\<open>
  fsync(fd);
  rv = spwrite(ts->fs->fd, ts->buf, ts->len, ts->offset);
  if (rv != ts->len) goto exit;
  ts->flags = ts->flags | J_COMMITED;
  free_tid(ts->fs, ts->id);
  unlink(name);
  \<close>
\<close>

definition commit_apply :: "jtrans \<Rightarrow> world \<Rightarrow> jtrans \<times> world" where
  "commit_apply ts s =
     (case spwrite s DataFd (buf ts) (len ts) (offset ts) of (rv, s1) \<Rightarrow>
        if rv \<noteq> int (len ts) then (ts, s1)
        else
          let ts1 = ts\<lparr>flags := flags ts OR J_COMMITED\<rparr>;
              s2 = free_tid s1 (tid ts1)
          in (ts1, s2\<lparr>recs := (recs s2)(tid ts1 := None)\<rparr>))"

text \<open>
  Lines 269-285 of \<open>jtrans_commit\<close>: the id and the record file. \<open>Inl\<close> is one of
  the first four \<open>return -1\<close>: no memory for the name, no id, \<open>get_jtfile\<close> or \<open>open\<close>
  failing. \<open>open\<close> with \<open>O_CREAT | O_TRUNC\<close> leaves an empty record file; the lock taken
  on it lasts while it is open. \<open>get_jtfile\<close> returns 0 when its first \<open>strdup\<close> fails;
  its second \<open>strdup\<close> is followed by a test of the first pointer again, so a failure
  there goes unnoticed by the code and is not modelled.
  \<^verbatim>\<open>
  name = (char *) malloc(PATH_MAX);
  if (name == NULL) return -1;
  id = get_tid(ts->fs);
  if (id == 0) return -1;
  if (!get_jtfile(ts->fs->name, id, name)) return -1;
  fd = open(name, O_RDWR | O_CREAT | O_TRUNC | O_LARGEFILE, 0600);
  if (fd < 0) return -1;
  plockf(fd, F_LOCK, 0, 0);
  \<close>
\<close>

definition commit_open :: "world \<Rightarrow> world + (u32 \<times> world)" where
  "commit_open s =
     (case pop s of (m0, s0) \<Rightarrow>
      if m0 = Fail then Inl s0 else
      case get_tid s0 of (id', s1) \<Rightarrow>
      if id' = 0 then Inl s1 else
      case pop s1 of (m1, s2) \<Rightarrow>
      if m1 = Fail then Inl s2 else
      case pop s2 of (m2, s3) \<Rightarrow>
      if m2 = Fail then Inl s3 else
      Inr (id', s3\<lparr>recs := (recs s3)(id' \<mapsto> []), ropen := insert id' (ropen s3)\<rparr>))"

text \<open>
  Lines 287-298, up to the allocation of the header buffer. The fifth \<open>return -1\<close>, no
  memory for the header buffer, leaves without passing \<open>exit\<close>, after the record file
  is open and the range is locked.
  \<^verbatim>\<open>
  ts->id = id;
  ts->name = name;
  if (!(ts->fs->flags & J_NOLOCK))
      plockf(ts->fs->fd, F_LOCK, ts->offset, ts->len);
  buf_init = malloc(J_DISKTFIXSIZE);
  if (buf_init == NULL) return -1;
  \<close>
\<close>

definition commit_prepare :: "jtrans \<Rightarrow> world \<Rightarrow> (jtrans \<times> world) + (u32 \<times> jtrans \<times> world)" where
  "commit_prepare ts s =
     (case commit_open s of
        Inl s' \<Rightarrow> Inl (ts, s')
      | Inr (id', s4) \<Rightarrow>
          let ts1 = ts\<lparr>tid := id', name := Some id'\<rparr>;
              s5 = (if nolock s4 then s4
                    else s4\<lparr>dlocks := insert (offset ts1, len ts1) (dlocks s4)\<rparr>)
          in
          case pop s5 of (m3, s6) \<Rightarrow>
          if m3 = Fail then Inl (ts1, s6) else Inr (id', ts1, s6))"

text \<open>\<open>jtrans_commit\<close>, lines 263-393: the preparation, the record, the apply, and
  \<open>exit\<close>.\<close>

definition jtrans_commit :: "jtrans \<Rightarrow> world \<Rightarrow> int \<times> jtrans \<times> world" where
  "jtrans_commit ts s =
     (case commit_prepare ts s of
        Inl (ts', s') \<Rightarrow> (- 1, ts', s')
      | Inr (fd, ts1, s1) \<Rightarrow>
          (case commit_build fd ts1 s1 of (ok, ts2, s2) \<Rightarrow>
             if \<not> ok then commit_exit fd ts2 s2
             else (case commit_apply ts2 s2 of (ts3, s3) \<Rightarrow> commit_exit fd ts3 s3)))"

text \<open>
  \<open>jtrans_rollback\<close>, lines 396-435. The new transaction is a local of the C function.
  The first statement after \<open>jtrans_init\<close> is \<open>malloc(strlen(ts->name))\<close>: with
  \<open>ts->name\<close> still \<open>NULL\<close> (a transaction that never reached the \<open>open\<close> of a commit)
  the process dereferences a null pointer, and the result is \<open>None\<close>.
  \<^verbatim>\<open>
  jtrans_init(ts->fs, &newts);
  newts.name = malloc(strlen(ts->name));
  if (newts.name == NULL) return -1;
  strcpy(newts.name, ts->name);
  newts.flags = ts->flags;
  newts.offset = ts->offset;
  newts.buf = ts->pdata;
  newts.len = ts->plen;
  if (ts->plen < ts->len)
      ftruncate(ts->fs->fd, ts->offset + ts->plen);
  newts.pdata = ts->buf;
  newts.plen = ts->len;
  newts.udata = ts->udata;
  newts.ulen = ts->ulen;
  rv = jtrans_commit(&newts);
  return rv;
  \<close>
\<close>

definition jtrans_rollback :: "jtrans \<Rightarrow> world \<Rightarrow> (int \<times> world) option" where
  "jtrans_rollback ts s =
     (case name ts of
        None \<Rightarrow> None
      | Some nm \<Rightarrow>
          (case pop s of (m, s0) \<Rightarrow>
           if m = Fail then Some (- 1, s0) else
           let newts = jtrans_init\<lparr>name := name ts, flags := flags ts, offset := offset ts,
                         buf := (case pdata ts of None \<Rightarrow> [] | Some pd \<Rightarrow> pd), len := plen ts\<rparr>;
               s1 = (if plen ts < len ts
                     then s0\<lparr>dfile := file_truncate (dfile s0) (offset ts + plen ts)\<rparr> else s0);
               newts' = newts\<lparr>pdata := Some (buf ts), plen := len ts,
                          udata := udata ts, ulen := ulen ts\<rparr>
           in case jtrans_commit newts' s1 of (rv, ts', s2) \<Rightarrow> Some (rv, s2)))"

section \<open>The write wrappers (libjio.c)\<close>

text \<open>
  \<open>jwrite\<close>, lines 541-565, and \<open>jwritev\<close>, lines 588-633. An \<open>iovec\<close> is the list of its
  bytes. Both end with
  \<^verbatim>\<open>
  rv = jtrans_commit(&ts);
  if (rv >= 0) {
      /* if success, advance the file pointer */
      lseek(fs->fd, count, SEEK_CUR);
  }
  return rv;
  \<close>
  where \<open>count\<close> is the byte count in \<open>jwrite\<close> and the number of vectors in \<open>jwritev\<close>.
\<close>

definition jwrite :: "world \<Rightarrow> byte list \<Rightarrow> nat \<Rightarrow> int \<times> world" where
  "jwrite s b count =
     (let ts = jtrans_init\<lparr>offset := dpos s, buf := b, len := count\<rparr>
      in case jtrans_commit ts s of (rv, ts', s1) \<Rightarrow>
           if rv \<ge> 0 then (rv, s1\<lparr>dpos := dpos s1 + count\<rparr>) else (rv, s1))"

definition jwritev :: "world \<Rightarrow> byte list list \<Rightarrow> int \<times> world" where
  "jwritev s vector =
     (let count = length vector;
          sum = sum_list (map length vector)
      in case pop s of (m, s0) \<Rightarrow>
      if m = Fail then (- 1, s0) else
      let b = concat vector;
          ts = jtrans_init\<lparr>offset := dpos s0, buf := b, len := sum\<rparr>
      in case jtrans_commit ts s0 of (rv, ts', s1) \<Rightarrow>
           if rv \<ge> 0 then (rv, s1\<lparr>dpos := dpos s1 + count\<rparr>) else (rv, s1))"


section \<open>Recovery (check.c)\<close>

text \<open>
  check.c belongs to the later on-disk format: a transaction is a list of operations and
  a record ends with a checksum. \<open>struct joper\<close> and \<open>struct jtrans\<close> as \<open>fill_trans\<close>
  and \<open>jfsck\<close> use them; \<open>op_buf\<close> is the pointer \<open>op->buf\<close> as an offset from the start
  of the mapped record, and \<open>ops\<close> is the chain \<open>ts->op\<close> in order.
\<close>

record joper =
  op_len :: nat
  op_plen :: nat
  op_offset :: nat
  op_buf :: nat
  op_pdata :: "byte list option"

record jtrans_ck =
  ck_id :: u32
  ck_flags :: u32
  numops :: nat
  ops :: "joper list"

text \<open>Modelled from the spec: the macros \<open>J_DISKHEADSIZE\<close> and \<open>J_DISKOPHEADSIZE\<close> of
  libjio.h, which is not among the sources. By the record layout of the spec the header
  is id, flags and numops in four bytes each, and an operation header is len and plen in
  four bytes each and offset in eight.\<close>

definition J_DISKHEADSIZE :: nat where
  "J_DISKHEADSIZE = 12"

definition J_DISKOPHEADSIZE :: nat where
  "J_DISKOPHEADSIZE = 16"

text \<open>
  The loop of \<open>fill_trans\<close>, lines 46-82, with \<open>n\<close> operations still to read and \<open>p\<close> the
  read pointer as an offset into the map \<open>m\<close>; \<open>None\<close> is the jump to \<open>error\<close>.
  \<^verbatim>\<open>
  for (i = 0; i < ts->numops; i++) {
      if (p + J_DISKOPHEADSIZE > map + len) goto error;
      op = malloc(sizeof(struct joper));
      if (op == NULL) goto error;
      op->len = *( (uint32_t *) p);    p += 4;
      op->plen = *( (uint32_t *) p);   p += 4;
      op->offset = *( (uint64_t *) p); p += 8;
      if (p + op->len > map + len) goto error;
      op->buf = (void *) p;
      p += op->len;
      op->pdata = NULL;
      ... append op to ts->op ...
  }
  \<close>
\<close>

fun fill_ops ::
  "byte list \<Rightarrow> nat \<Rightarrow> nat \<Rightarrow> joper list \<Rightarrow> world \<Rightarrow> joper list option \<times> world" where
  "fill_ops m 0 p os s = (Some os, s)"
| "fill_ops m (Suc n) p os s =
     (if p + J_DISKOPHEADSIZE > length m then (None, s)
      else
        (case pop s of (mo, s1) \<Rightarrow>
           if mo = Fail then (None, s1)
           else
             let l = le_val (take 4 (drop p m));
                 pl = le_val (take 4 (drop (p + 4) m));
                 off = le_val (take 8 (drop (p + 8) m));
                 p' = p + 16
             in if p' + l > length m then (None, s1)
                else fill_ops m n (p' + l)
                       (os @ [\<lparr>op_len = l, op_plen = pl, op_offset = off, op_buf = p',
                               op_pdata = None\<rparr>]) s1))"

text \<open>\<open>fill_trans\<close>, lines 26-93. On \<open>error\<close> the whole chain \<open>ts->op\<close> is freed.\<close>

definition fill_trans :: "byte list \<Rightarrow> jtrans_ck \<Rightarrow> world \<Rightarrow> int \<times> jtrans_ck \<times> world" where
  "fill_trans m ts s =
     (if length m < J_DISKHEADSIZE then (0, ts, s)
      else
        let ts1 = ts\<lparr>ck_id := le32_dec m, ck_flags := le32_dec (drop 4 m),
                    numops := le_val (take 4 (drop 8 m))\<rparr>
        in case fill_ops m (numops ts1) 12 (ops ts1) s of
             (Some os, s') \<Rightarrow> (1, ts1\<lparr>ops := os\<rparr>, s')
           | (None, s') \<Rightarrow> (0, ts1\<lparr>ops := []\<rparr>, s'))"

text \<open>Modelled from the spec: the result codes of recovery and \<open>jtrans_init\<close> of the
  later format, both declared outside the sources at hand. The spec names the codes
  ESUCCESS (0), ENOENT, ENOJOURNAL and ENOMEM, and has \<open>init\<close> return an empty
  transaction with id 0, flags 0 and no operations.\<close>

datatype jerr = J_ESUCCESS | J_ENOENT | J_ENOJOURNAL | J_ENOMEM

definition jtrans_init_ck :: jtrans_ck where
  "jtrans_init_ck = \<lparr>ck_id = 0, ck_flags = 0, numops = 0, ops = []\<rparr>"

record jfsck_result =
  total :: nat
  invalid :: nat
  in_progress :: nat
  broken :: nat
  corrupt :: nat
  apply_error :: nat
  reapplied :: nat

text \<open>
  \<open>checksum_map\<close> (common.c) and the \<open>jtrans_commit\<close> of the later format are not among
  the sources; \<open>jfsck\<close> takes them as the parameters \<open>cs\<close> and \<open>commit\<close>. \<open>commit\<close>
  receives the transaction, the mapped record its operations point into, and the world.

  Lines 236-276, for a record file that has been opened and whose contents are \<open>m\<close>: the
  try-lock, \<open>mmap\<close>, \<open>fill_trans\<close>, the checksum and the replay. Each branch is a
  \<open>goto loop\<close> of the C code.
\<close>

definition jfsck_rec ::
  "(byte list \<Rightarrow> u32) \<Rightarrow> (jtrans_ck \<Rightarrow> byte list \<Rightarrow> world \<Rightarrow> int \<times> world) \<Rightarrow>
   jtrans_ck \<Rightarrow> byte list \<Rightarrow> jfsck_result \<Rightarrow> world \<Rightarrow> jfsck_result \<times> world" where
  "jfsck_rec cs commit curts m res s =
     (case pop s of (lk, s1) \<Rightarrow>
      if lk = Fail then (res\<lparr>in_progress := in_progress res + 1\<rparr>, s1) else
      case pop s1 of (mm, s2) \<Rightarrow>
      if mm = Fail then (res\<lparr>broken := broken res + 1\<rparr>, s2) else
      case fill_trans m curts s2 of (rv, ts1, s3) \<Rightarrow>
      if rv \<noteq> 1 then (res\<lparr>broken := broken res + 1\<rparr>, s3) else
      let filelen = length m;
          csum1 = cs (take (filelen - 4) m);
          csum2 = le32_dec (drop (filelen - 4) m)
      in
      if csum1 \<noteq> csum2 then (res\<lparr>corrupt := corrupt res + 1\<rparr>, s3) else
      case commit (ts1\<lparr>ck_flags := 0\<rparr>) m s3 of (rv', s4) \<Rightarrow>
      if rv' < 0 then (res\<lparr>apply_error := apply_error res + 1\<rparr>, s4)
      else (res\<lparr>reapplied := reapplied res + 1\<rparr>, s4))"

text \<open>Lines 222-298: one round of the loop for the id \<open>i\<close>, after \<open>curts\<close> has been
  allocated, up to and including \<open>res->total++\<close>.\<close>

definition jfsck_one ::
  "(byte list \<Rightarrow> u32) \<Rightarrow> (jtrans_ck \<Rightarrow> byte list \<Rightarrow> world \<Rightarrow> int \<times> world) \<Rightarrow>
   nat \<Rightarrow> jfsck_result \<Rightarrow> world \<Rightarrow> jfsck_result \<times> world" where
  "jfsck_one cs commit i res s =
     (let curts = jtrans_init_ck\<lparr>ck_id := of_nat i\<rparr> in
      case pop s of (mo, s1) \<Rightarrow>
      case (if mo = Fail then None else recs s1 (of_nat i)) of
        None \<Rightarrow> (res\<lparr>invalid := invalid res + 1, total := total res + 1\<rparr>, s1)
      | Some m \<Rightarrow>
          (case jfsck_rec cs commit curts m res (s1\<lparr>ropen := insert (of_nat i) (ropen s1)\<rparr>) of
             (res', s2) \<Rightarrow>
               (res'\<lparr>total := total res' + 1\<rparr>, s2\<lparr>ropen := ropen s2 - {of_nat i}\<rparr>)))"

text \<open>
  \<^verbatim>\<open>
  for (i = 1; i <= maxtid; i++) {
      curts = malloc(sizeof(struct jtrans));
      if (curts == NULL) { ret = J_ENOMEM; goto exit; }
      ...
  }
  \<close>
\<close>

function jfsck_loop ::
  "(byte list \<Rightarrow> u32) \<Rightarrow> (jtrans_ck \<Rightarrow> byte list \<Rightarrow> world \<Rightarrow> int \<times> world) \<Rightarrow>
   nat \<Rightarrow> nat \<Rightarrow> jfsck_result \<Rightarrow> world \<Rightarrow> jerr \<times> jfsck_result \<times> world" where
  "jfsck_loop cs commit maxtid i res s =
     (if i \<le> maxtid then
        (case pop s of (mo, s1) \<Rightarrow>
           if mo = Fail then (J_ENOMEM, res, s1)
           else
             (case jfsck_one cs commit i res s1 of (res', s2) \<Rightarrow>
                jfsck_loop cs commit maxtid (i + 1) res' s2))
      else (J_ESUCCESS, res, s))"
  by pat_completeness auto
termination
  by (relation "measure (\<lambda>(cs, commit, maxtid, i, res, s). Suc maxtid - i)") auto

text \<open>
  Lines 194-204: the greatest transaction number among the directory entries; \<open>dents\<close>
  holds \<open>atoi(dent->d_name)\<close> for each entry \<open>readdir\<close> returns.
\<close>

definition find_maxtid :: "int list \<Rightarrow> nat" where
  "find_maxtid dents =
     foldl (\<lambda>maxtid rv. if rv \<le> 0 then maxtid else if nat rv > maxtid then nat rv else maxtid)
       0 dents"

text \<open>
  \<open>jfsck\<close>, lines 96-317. \<open>setup\<close> lists the result codes of the preparatory calls that
  can fail before the directory is read, in order; \<open>jdir_null\<close> tells whether the caller
  passed no journal directory.
\<close>

fun jfsck_setup :: "jerr list \<Rightarrow> world \<Rightarrow> jerr \<times> world" where
  "jfsck_setup [] s = (J_ESUCCESS, s)"
| "jfsck_setup (e # es) s =
     (case pop s of (mo, s1) \<Rightarrow> if mo = Fail then (e, s1) else jfsck_setup es s1)"

definition jfsck ::
  "(byte list \<Rightarrow> u32) \<Rightarrow> (jtrans_ck \<Rightarrow> byte list \<Rightarrow> world \<Rightarrow> int \<times> world) \<Rightarrow>
   bool \<Rightarrow> int list \<Rightarrow> world \<Rightarrow> jerr \<times> jfsck_result \<times> world" where
  "jfsck cs commit jdir_null dents s =
     (let res = \<lparr>total = 0, invalid = 0, in_progress = 0, broken = 0, corrupt = 0,
                 apply_error = 0, reapplied = 0\<rparr>;
          setup = [J_ENOENT] @ (if jdir_null then [J_ENOMEM, J_ENOMEM] else [J_ENOMEM]) @
                  [J_ENOJOURNAL, J_ENOJOURNAL, J_ENOJOURNAL, J_ENOJOURNAL, J_ENOJOURNAL]
      in case jfsck_setup setup s of (e, s1) \<Rightarrow>
      if e \<noteq> J_ESUCCESS then (e, res, s1) else
      let maxtid = find_maxtid dents in
      case spwrite s1 LockFd (le32 (of_nat maxtid)) 4 0 of (rv, s2) \<Rightarrow>
      if rv \<noteq> 4 then (J_ENOMEM, res, s2)
      else jfsck_loop cs commit maxtid 1 res s2)"

section \<open>Concrete worlds and transactions\<close>

definition w_wrap :: world where
  "w_wrap = \<lparr>dfile = [], dpos = 0, dlocks = {}, nolock = False,
             jfile = [255, 255, 255, 255], jlocked = False, recs = (\<lambda>i. None),
             ropen = {}, fresh = (\<lambda>i. 0),
             outcomes = [Short 1, Full, Short 0]\<rparr>"


text \<open>  The record layout in the words of the spec, read off the bytes alone: \<open>n\<close> operations
  are declared from offset \<open>p\<close> on, and each has its 16-byte header and then its
  \<open>op.len\<close> bytes of new data inside the map.\<close>

fun record_fits :: "byte list \<Rightarrow> nat \<Rightarrow> nat \<Rightarrow> bool" where
  "record_fits m 0 p = True"
| "record_fits m (Suc n) p =
     (p + 16 \<le> length m \<and> p + 16 + le_val (take 4 (drop p m)) \<le> length m \<and>
      record_fits m n (p + 16 + le_val (take 4 (drop p m))))"

text \<open>A record with id 7, one operation (len 2, plen 0, offset 9, data \<open>AB\<close>) and the
  trailing checksum bytes 1, 2, 3, 4.\<close>

definition w_rec :: "byte list" where
  "w_rec = [7, 0, 0, 0,  0, 0, 0, 0,  1, 0, 0, 0,
            2, 0, 0, 0,  0, 0, 0, 0,  9, 0, 0, 0, 0, 0, 0, 0,  65, 66,
            1, 2, 3, 4]"

definition w_idle :: world where
  "w_idle = \<lparr>dfile = [], dpos = 0, dlocks = {}, nolock = False,
             jfile = [7, 0, 0, 0], jlocked = False,
             recs = (\<lambda>i. None), ropen = {}, fresh = (\<lambda>i. 0),
             outcomes = []\<rparr>"

definition w_fsck :: world where
  "w_fsck = \<lparr>dfile = [88, 89], dpos = 0, dlocks = {}, nolock = False,
             jfile = [1, 0, 0, 0], jlocked = False,
             recs = (\<lambda>i. None)(1 \<mapsto> w_rec), ropen = {}, fresh = (\<lambda>i. 0),
             outcomes = []\<rparr>"

definition r_zero :: jfsck_result where
  "r_zero = \<lparr>total = 0, invalid = 0, in_progress = 0, broken = 0, corrupt = 0,
             apply_error = 0, reapplied = 0\<rparr>"


text \<open>  The loop of recovery in the words of the spec, as a run over a list of ids: for each
  id a transaction object is allocated (recovery ends with ENOMEM when that fails), the
  record of that id is processed by one round, which counts it in \<open>total\<close> in all cases,
  and the run goes on with the next id.\<close>

fun jfsck_rounds ::
  "(byte list \<Rightarrow> u32) \<Rightarrow> (jtrans_ck \<Rightarrow> byte list \<Rightarrow> world \<Rightarrow> int \<times> world) \<Rightarrow>
   nat list \<Rightarrow> jfsck_result \<Rightarrow> world \<Rightarrow> jerr \<times> jfsck_result \<times> world" where
  "jfsck_rounds cs commit [] res s = (J_ESUCCESS, res, s)"
| "jfsck_rounds cs commit (i # is) res s =
     (case pop s of (mo, s1) \<Rightarrow>
        if mo = Fail then (J_ENOMEM, res, s1)
        else (case jfsck_one cs commit i res s1 of (res', s2) \<Rightarrow>
                jfsck_rounds cs commit is res' s2))"

text \<open>The example of the spec: a data file of four bytes \<open>AAAA\<close>, an idle journal whose
  counter is 1, and every system call completing in full.\<close>

definition w_four :: world where
  "w_four = \<lparr>dfile = [65, 65, 65, 65], dpos = 0, dlocks = {}, nolock = False,
             jfile = [1, 0, 0, 0], jlocked = False,
             recs = (\<lambda>i. None), ropen = {}, fresh = (\<lambda>i. 0),
             outcomes = []\<rparr>"

text \<open>The transaction that writes \<open>BB\<close> at offset 1.\<close>

definition t_bb :: jtrans where
  "t_bb = jtrans_init\<lparr>buf := [66, 66], len := 2, offset := 1\<rparr>"

text \<open>The transaction that \<open>jtrans_rollback\<close> hands to \<open>jtrans_commit\<close> to undo \<open>t_bb\<close> once
  it is committed under id 2: the flags are copied (line 409), the saved bytes \<open>AA\<close> are
  the new data, and \<open>BB\<close> is kept as the previous data.\<close>

definition t_undo :: jtrans where
  "t_undo = jtrans_init\<lparr>name := Some 2, flags := J_COMMITED, offset := 1,
              buf := [65, 65], len := 2, pdata := Some [66, 66], plen := 2\<rparr>"

text \<open>The world after \<open>t_bb\<close> is committed on \<open>w_four\<close>, at the point where \<open>jtrans_rollback\<close>
  calls \<open>jtrans_commit\<close>, with the twelfth call that can fail, the apply write on the data
  file, failing.\<close>

definition w_bb :: world where
  "w_bb = \<lparr>dfile = [65, 66, 66, 65], dpos = 0, dlocks = {}, nolock = False,
           jfile = [0, 0, 0, 0], jlocked = False,
           recs = (\<lambda>i. None), ropen = {}, fresh = (\<lambda>i. 0),
           outcomes = replicate 11 Full @ [Fail]\<rparr>"

section \<open>Properties of the system-call layer\<close>

declare spwrite_loop.simps [simp del] spread_loop.simps [simp del]

lemma pop_res: "pop s = (oc, s') \<Longrightarrow>
   \<exists>o'. s' = s\<lparr>outcomes := o'\<rparr> \<and> set o' \<subseteq> set (outcomes s) \<and> (Fail \<notin> set (outcomes s) \<longrightarrow> oc \<noteq> Fail)"
  by (auto simp: pop_def split: list.splits)

lemma xfer_le: "xfer oc n \<le> n"
  by (cases oc) auto

lemma xfer_pos: "oc \<noteq> Fail \<Longrightarrow> 0 < n \<Longrightarrow> 0 < xfer oc n"
  by (cases oc) auto

lemma length_file_write: "length f \<le> length (file_write f bs off)"
  by (auto simp: file_write_def)

lemma file_write_nil: "file_write f [] off = f"
  by (simp add: file_write_def)

lemma file_write_append:
  "file_write (file_write f a off) b (off + length a) = file_write f (a @ b) off"
proof (cases "a = [] \<or> b = []")
  case True
  then show ?thesis by (auto simp: file_write_def)
next
  case False
  then show ?thesis
    by (auto simp: file_write_def min_def ac_simps)
qed


lemma pwrite_res:
  assumes "pwrite s fd bs off = (rv, s')" "fd_file s fd = Some f"
  shows "\<exists>o' k. set o' \<subseteq> set (outcomes s) \<and>
           (Fail \<notin> set (outcomes s) \<longrightarrow> rv \<noteq> - 1) \<and>
           (rv = - 1 \<and> s' = s\<lparr>outcomes := o'\<rparr> \<or>
            rv = int k \<and> k \<le> length bs \<and> (bs \<noteq> [] \<longrightarrow> 0 < k) \<and>
            s' = fd_put fd (file_write f (take k bs) off) (s\<lparr>outcomes := o'\<rparr>))"
proof -
  obtain oc s1 where p: "pop s = (oc, s1)" by (cases "pop s")
  from pop_res [OF p] obtain o' where
    o: "s1 = s\<lparr>outcomes := o'\<rparr>" "set o' \<subseteq> set (outcomes s)"
       "Fail \<notin> set (outcomes s) \<longrightarrow> oc \<noteq> Fail" by blast
  have ff: "fd_file s1 fd = Some f" using assms(2) o(1) by (cases fd) auto
  show ?thesis
  proof (cases "oc = Fail")
    case True
    with assms(1) p ff o show ?thesis by (auto simp: pwrite_def)
  next
    case False
    with assms(1) p ff have
      "rv = int (xfer oc (length bs))"
      "s' = fd_put fd (file_write f (take (xfer oc (length bs)) bs) off) s1"
      by (auto simp: pwrite_def Let_def)
    moreover have "xfer oc (length bs) \<le> length bs" by (rule xfer_le)
    moreover have "bs \<noteq> [] \<longrightarrow> 0 < xfer oc (length bs)" using False by (simp add: xfer_pos)
    ultimately show ?thesis using o False
      by (intro exI [of _ o'] exI [of _ "xfer oc (length bs)"]) auto
  qed
qed

lemma fd_file_put: "fd_file (fd_put fd f (s\<lparr>outcomes := o'\<rparr>)) fd = Some f"
  by (cases fd) auto

lemma fd_put_put: "fd_put fd f' (fd_put fd f (s\<lparr>outcomes := o1\<rparr>)\<lparr>outcomes := o2\<rparr>) = fd_put fd f' (s\<lparr>outcomes := o2\<rparr>)"
  by (cases fd) auto

lemma outcomes_fd_put: "outcomes (fd_put fd f s) = outcomes s"
  by (cases fd) auto

lemma fd_put_same: "fd_file s fd = Some f \<Longrightarrow> fd_put fd f (s\<lparr>outcomes := o'\<rparr>) = s\<lparr>outcomes := o'\<rparr>"
  by (cases fd) (auto simp: map_upd_triv)

lemma fd_put_same0: "fd_file s fd = Some f \<Longrightarrow> fd_put fd f s = s"
  by (cases fd) (auto simp: map_upd_triv)

lemma spwrite_loop_res:
  assumes "spwrite_loop s fd b count off c = (rv, s')" "fd_file s fd = Some f"
    "c \<le> count" "count \<le> length b"
  shows "\<exists>o' f'. s' = fd_put fd f' (s\<lparr>outcomes := o'\<rparr>) \<and> set o' \<subseteq> set (outcomes s) \<and>
           length f \<le> length f' \<and>
           (rv = int count \<longrightarrow> f' = file_write f (take (count - c) (drop c b)) (off + c)) \<and>
           (Fail \<notin> set (outcomes s) \<longrightarrow> rv = int count)"
  using assms
proof (induction s fd b count off c arbitrary: f rule: spwrite_loop.induct)
  case (1 s fd b count off c)
  show ?case
  proof (cases "c < count")
    case False
    with "1.prems" have "rv = int count" "s' = s" "c = count"
      by (auto simp: spwrite_loop.simps [of s fd b count off c])
    then show ?thesis using "1.prems"(2)
      by (intro exI [of _ "outcomes s"] exI [of _ f]) (auto simp: fd_put_same0 file_write_nil)
  next
    case True
    let ?bs = "take (count - c) (drop c b)"
    have bs_len: "length ?bs = count - c" using True "1.prems" by simp
    obtain rv1 s1 where pw: "pwrite s fd ?bs (off + c) = (rv1, s1)"
      by (cases "pwrite s fd ?bs (off + c)")
    from pwrite_res [OF pw "1.prems"(2)] obtain o1 k where
      o1: "set o1 \<subseteq> set (outcomes s)" "Fail \<notin> set (outcomes s) \<longrightarrow> rv1 \<noteq> - 1"
      and alt: "rv1 = - 1 \<and> s1 = s\<lparr>outcomes := o1\<rparr> \<or>
            rv1 = int k \<and> k \<le> length ?bs \<and> (?bs \<noteq> [] \<longrightarrow> 0 < k) \<and>
            s1 = fd_put fd (file_write f (take k ?bs) (off + c)) (s\<lparr>outcomes := o1\<rparr>)"
      by blast
    from alt show ?thesis
    proof
      assume a: "rv1 = - 1 \<and> s1 = s\<lparr>outcomes := o1\<rparr>"
      with "1.prems"(1) True pw have "rv = - 1" "s' = s1"
        by (auto simp: spwrite_loop.simps [of s fd b count off c])
      with a o1 "1.prems"(2) show ?thesis
        by (intro exI [of _ o1] exI [of _ f]) (auto simp: fd_put_same)
    next
      assume a: "rv1 = int k \<and> k \<le> length ?bs \<and> (?bs \<noteq> [] \<longrightarrow> 0 < k) \<and>
            s1 = fd_put fd (file_write f (take k ?bs) (off + c)) (s\<lparr>outcomes := o1\<rparr>)"
      let ?f1 = "file_write f (take k ?bs) (off + c)"
      from a bs_len True have k: "0 < k" "k \<le> count - c" by auto
      have tk: "take k ?bs = take k (drop c b)" using k by (simp add: min_def)
      show ?thesis
      proof (cases "rv1 = int count")
        case True
        with a k have "c = 0" "k = count" by auto
        moreover from True "1.prems"(1) \<open>c < count\<close> pw have "rv = int count" "s' = s1"
          by (auto simp: spwrite_loop.simps [of s fd b count off c])
        ultimately show ?thesis using a o1 length_file_write [of f "take k ?bs" "off + c"]
          by (intro exI [of _ o1] exI [of _ ?f1]) auto
      next
        case False
        with a k "1.prems"(1) \<open>c < count\<close> pw
        have rec: "spwrite_loop s1 fd b count off (c + k) = (rv, s')"
          by (auto simp: spwrite_loop.simps [of s fd b count off c])
        have ff1: "fd_file s1 fd = Some ?f1" using a by (simp add: fd_file_put)
        have npos: "\<not> rv1 \<le> 0" using a k by simp
        have nk: "nat rv1 = k" using a by simp
        have rec': "spwrite_loop s1 fd b count off (c + nat rv1) = (rv, s')"
          using rec nk by simp
        have le': "c + nat rv1 \<le> count" using nk k by simp
        from "1.IH" [OF True pw [symmetric] False npos rec' ff1 le' "1.prems"(4)]
        obtain o' f' where
          r: "s' = fd_put fd f' (s1\<lparr>outcomes := o'\<rparr>)" "set o' \<subseteq> set (outcomes s1)"
             "length ?f1 \<le> length f'"
             "rv = int count \<longrightarrow> f' = file_write ?f1 (take (count - (c + k)) (drop (c + k) b)) (off + (c + k))"
             "Fail \<notin> set (outcomes s1) \<longrightarrow> rv = int count"
          unfolding nk by blast
        have app: "take k (drop c b) @ take (count - (c + k)) (drop (c + k) b) = ?bs"
        proof -
          have e: "k + (count - (c + k)) = count - c" using k by simp
          have "take (k + (count - (c + k))) (drop c b) =
                take k (drop c b) @ take (count - (c + k)) (drop (c + k) b)"
            by (simp only: take_add drop_drop add.commute)
          then show ?thesis by (simp only: e)
        qed
        have lk: "length (take k (drop c b)) = k" using k "1.prems" by simp
        have fw: "file_write ?f1 (take (count - (c + k)) (drop (c + k) b)) (off + (c + k))
                 = file_write f ?bs (off + c)"
          using file_write_append [of f "take k (drop c b)" "off + c"
                  "take (count - (c + k)) (drop (c + k) b)"] lk app tk
          by (simp add: ac_simps)
        have os: "outcomes s1 = o1" using a by (simp add: outcomes_fd_put)
        show ?thesis
          using r a o1 os fw length_file_write [of f "take k ?bs" "off + c"]
          by (intro exI [of _ o'] exI [of _ f']) (auto simp: fd_put_put)
      qed
    qed
  qed
qed


lemma take_take_le: "k \<le> length (take n xs) \<Longrightarrow> take k (take n xs) = take k xs"
  by (simp add: min_absorb1)

lemma pread_res:
  assumes "pread s fd n off = (rv, bs, s')" "fd_file s fd = Some f"
  shows "\<exists>o'. s' = s\<lparr>outcomes := o'\<rparr> \<and> set o' \<subseteq> set (outcomes s) \<and>
           (Fail \<notin> set (outcomes s) \<longrightarrow> rv \<noteq> - 1) \<and>
           (rv = - 1 \<and> bs = [] \<or>
            (\<exists>k. rv = int k \<and> k \<le> min n (length f - off) \<and> bs = take k (drop off f) \<and>
                 (0 < min n (length f - off) \<longrightarrow> 0 < k)))"
proof -
  obtain oc s1 where p: "pop s = (oc, s1)" by (cases "pop s")
  from pop_res [OF p] obtain o' where
    o: "s1 = s\<lparr>outcomes := o'\<rparr>" "set o' \<subseteq> set (outcomes s)"
       "Fail \<notin> set (outcomes s) \<longrightarrow> oc \<noteq> Fail" by blast
  have ff: "fd_file s1 fd = Some f" using assms(2) o(1) by (cases fd) auto
  show ?thesis
  proof (cases "oc = Fail")
    case True
    with assms(1) p ff o show ?thesis by (auto simp: pread_def)
  next
    case False
    let ?av = "take n (drop off f)"
    let ?k = "xfer oc (length ?av)"
    from False assms(1) p ff have r: "rv = int ?k" "bs = take ?k ?av" "s' = s1"
      by (auto simp: pread_def Let_def)
    have k1: "?k \<le> length ?av" by (rule xfer_le)
    have k2: "0 < length ?av \<longrightarrow> 0 < ?k" using False by (simp add: xfer_pos)
    have la: "length ?av = min n (length f - off)" by simp
    have "take ?k ?av = take ?k (drop off f)" using k1 by (rule take_take_le)
    with r k1 k2 la o show ?thesis
      by (intro exI [of _ o']) (auto simp del: length_take length_drop)
  qed
qed

lemma spread_loop_res:
  assumes "spread_loop s fd b count off c = (rv, b', s')" "fd_file s fd = Some f"
    "c \<le> count" "count \<le> length b" "off + c \<le> length f \<or> c = 0"
  shows "\<exists>o'. s' = s\<lparr>outcomes := o'\<rparr> \<and> set o' \<subseteq> set (outcomes s) \<and> length b' = length b \<and>
           (0 \<le> rv \<longrightarrow> nat rv = min count (length f - off) \<and>
              b' = take c b @ take (nat rv - c) (drop (off + c) f) @ drop (nat rv) b) \<and>
           (Fail \<notin> set (outcomes s) \<longrightarrow> 0 \<le> rv)"
  using assms
proof (induction s fd b count off c rule: spread_loop.induct)
  case (1 s fd b count off c)
  show ?case
  proof (cases "c < count")
    case False
    with "1.prems" have "rv = int count" "s' = s" "c = count" "b' = b"
      by (auto simp: spread_loop.simps [of s fd b count off c])
    then show ?thesis using "1.prems"(5)
      by (intro exI [of _ "outcomes s"]) (auto simp: min_def)
  next
    case True
    obtain rv1 bs s1 where pr: "pread s fd (count - c) (off + c) = (rv1, bs, s1)"
      by (cases "pread s fd (count - c) (off + c)")
    let ?b1 = "take c b @ bs @ drop (c + length bs) b"
    from pread_res [OF pr "1.prems"(2)] obtain o1 where
      oall: "s1 = s\<lparr>outcomes := o1\<rparr> \<and> set o1 \<subseteq> set (outcomes s) \<and>
           (Fail \<notin> set (outcomes s) \<longrightarrow> rv1 \<noteq> - 1) \<and>
           (rv1 = - 1 \<and> bs = [] \<or>
            (\<exists>k. rv1 = int k \<and> k \<le> min (count - c) (length f - (off + c)) \<and>
                 bs = take k (drop (off + c) f) \<and>
                 (0 < min (count - c) (length f - (off + c)) \<longrightarrow> 0 < k)))" ..
    then have o1: "s1 = s\<lparr>outcomes := o1\<rparr>" "set o1 \<subseteq> set (outcomes s)"
          "Fail \<notin> set (outcomes s) \<longrightarrow> rv1 \<noteq> - 1"
      and alt: "rv1 = - 1 \<and> bs = [] \<or>
            (\<exists>k. rv1 = int k \<and> k \<le> min (count - c) (length f - (off + c)) \<and>
                 bs = take k (drop (off + c) f) \<and>
                 (0 < min (count - c) (length f - (off + c)) \<longrightarrow> 0 < k))"
      by simp_all
    have unf: "spread_loop s fd b count off c =
         (if rv1 = int count then (int count, ?b1, s1)
          else if rv1 < 0 then (rv1, ?b1, s1)
          else if rv1 = 0 then (int c, ?b1, s1)
          else spread_loop s1 fd ?b1 count off (c + nat rv1))"
      using True pr by (simp add: spread_loop.simps [of s fd b count off c] Let_def)
    from alt show ?thesis
    proof
      assume a: "rv1 = - 1 \<and> bs = []"
      with unf "1.prems"(1) have "rv = - 1" "s' = s1" "b' = b" by auto
      with o1 a show ?thesis by (intro exI [of _ o1]) auto
    next
      assume "\<exists>k. rv1 = int k \<and> k \<le> min (count - c) (length f - (off + c)) \<and>
                 bs = take k (drop (off + c) f) \<and>
                 (0 < min (count - c) (length f - (off + c)) \<longrightarrow> 0 < k)"
      then obtain k where k: "rv1 = int k" "k \<le> count - c" "k \<le> length f - (off + c)"
          "bs = take k (drop (off + c) f)"
          "0 < min (count - c) (length f - (off + c)) \<longrightarrow> 0 < k"
        by auto
      have lbs: "length bs = k" using k by simp
      have lb1: "length ?b1 = length b" using lbs k True "1.prems"(4) by simp
      show ?thesis
      proof (cases "rv1 = int count")
        case t1: True
        with k True have c0: "c = 0" "k = count" by auto
        from t1 unf "1.prems"(1) have "rv = int count" "s' = s1" "b' = ?b1" by auto
        with o1 c0 k lbs lb1 show ?thesis
          by (intro exI [of _ o1]) (auto simp: min_def)
      next
        case f1: False
        show ?thesis
        proof (cases "k = 0")
          case k0: True
          with k f1 unf "1.prems"(1) True have r: "rv = int c" "s' = s1" "b' = b" by auto
          from k0 k True have "length f \<le> off + c" by (auto simp: min_def split: if_splits)
          with "1.prems"(5) True have "c = min count (length f - off)" by auto
          with r o1 show ?thesis by (intro exI [of _ o1]) auto
        next
          case kpos: False
          have n0: "\<not> rv1 < 0" "rv1 \<noteq> 0" "nat rv1 = k" using k kpos by auto
          from unf f1 n0 "1.prems"(1)
          have rec: "spread_loop s1 fd ?b1 count off (c + nat rv1) = (rv, b', s')" by simp
          have ff1: "fd_file s1 fd = Some f" using "1.prems"(2) o1(1) by (cases fd) auto
          have le1: "c + nat rv1 \<le> count" using n0 k by simp
          have le2: "count \<le> length ?b1" using lb1 "1.prems"(4) by simp
          have le3: "off + (c + nat rv1) \<le> length f \<or> c + nat rv1 = 0"
            using n0 k kpos by auto
          from "1.IH" [OF True pr [symmetric] refl refl f1 n0(1) n0(2) rec ff1 le1 le2 le3]
          obtain o' where
            r: "s' = s1\<lparr>outcomes := o'\<rparr>" "set o' \<subseteq> set (outcomes s1)"
               "length b' = length ?b1"
               "0 \<le> rv \<longrightarrow> nat rv = min count (length f - off) \<and>
                  b' = take (c + nat rv1) ?b1 @
                       take (nat rv - (c + nat rv1)) (drop (off + (c + nat rv1)) f) @
                       drop (nat rv) ?b1"
               "Fail \<notin> set (outcomes s1) \<longrightarrow> 0 \<le> rv"
            by blast
          have ck: "c + k \<le> min count (length f - off)" using k kpos le1 n0 by auto
          have cb: "c \<le> length b" using True "1.prems"(4) by simp
          have t1: "take (c + k) ?b1 = take c b @ bs" using lbs cb by simp
          have bform: "0 \<le> rv \<longrightarrow>
                  b' = take c b @ take (nat rv - c) (drop (off + c) f) @ drop (nat rv) b"
          proof
            assume "0 \<le> rv"
            with r(4) have nr: "nat rv = min count (length f - off)"
              and bb: "b' = take (c + k) ?b1 @ take (nat rv - (c + k)) (drop (off + (c + k)) f) @
                       drop (nat rv) ?b1" using n0 by auto
            have ge: "c + k \<le> nat rv" using nr ck by simp
            have d1: "drop (nat rv) ?b1 = drop (nat rv) b" using ge lbs cb by simp
            have e: "k + (nat rv - (c + k)) = nat rv - c" using ge by simp
            have "take (k + (nat rv - (c + k))) (drop (off + c) f) =
                  take k (drop (off + c) f) @ take (nat rv - (c + k)) (drop (off + (c + k)) f)"
              by (simp only: take_add drop_drop add.commute add.left_commute)
            then have eq: "bs @ take (nat rv - (c + k)) (drop (off + (c + k)) f) =
                       take (nat rv - c) (drop (off + c) f)"
              using k(4) by (simp only: e)
            from bb have "b' = (take c b @ bs) @
                  take (nat rv - (c + k)) (drop (off + (c + k)) f) @ drop (nat rv) b"
              by (simp only: t1 d1)
            also have "\<dots> = take c b @
                  (bs @ take (nat rv - (c + k)) (drop (off + (c + k)) f)) @ drop (nat rv) b"
              by (simp only: append_assoc)
            finally show "b' = take c b @ take (nat rv - c) (drop (off + c) f) @ drop (nat rv) b"
              by (simp only: eq)
          qed
          from r o1 lb1 bform show ?thesis
            by (intro exI [of _ o']) auto
        qed
      qed
    qed
  qed
qed

section \<open>Transaction ids\<close>

lemma spwrite_res:
  assumes "spwrite s fd b count off = (rv, s')" "fd_file s fd = Some f" "count \<le> length b"
  shows "\<exists>o' f'. s' = fd_put fd f' (s\<lparr>outcomes := o'\<rparr>) \<and> set o' \<subseteq> set (outcomes s) \<and>
           length f \<le> length f' \<and>
           (rv = int count \<longrightarrow> f' = file_write f (take count b) off) \<and>
           (Fail \<notin> set (outcomes s) \<longrightarrow> rv = int count)"
  using spwrite_loop_res [of s fd b count off 0 rv s' f] assms
  by (simp add: spwrite_def)

lemma spread_res:
  assumes "spread s fd b count off = (rv, b', s')" "fd_file s fd = Some f" "count \<le> length b"
  shows "\<exists>o'. s' = s\<lparr>outcomes := o'\<rparr> \<and> set o' \<subseteq> set (outcomes s) \<and> length b' = length b \<and>
           (0 \<le> rv \<longrightarrow> nat rv = min count (length f - off) \<and>
              b' = take (nat rv) (drop off f) @ drop (nat rv) b) \<and>
           (Fail \<notin> set (outcomes s) \<longrightarrow> 0 \<le> rv)"
  using spread_loop_res [of s fd b count off 0 rv b' s' f] assms
  by (simp add: spread_def)

lemma length_le_bytes [simp]: "length (le_bytes n v) = n"
  by (induction n arbitrary: v) auto

lemma le_val_le_bytes: "le_val (le_bytes n v) = v mod 256 ^ n"
proof (induction n arbitrary: v)
  case 0
  show ?case by simp
next
  case (Suc n)
  have "unat (of_nat (v mod 256) :: byte) = v mod 256"
    by (simp add: unat_of_nat)
  with Suc show ?case
    by (simp add: mod_mult2_eq)
qed

lemma length_le32 [simp]: "length (le32 w) = 4"
  by (simp add: le32_def)

lemma le_word_val: "le_word bs = of_nat (le_val bs)"
  by (induction bs) (simp_all add: of_nat_unat)

lemma le32_dec_le32: "le32_dec (le32 w @ bs) = w"
proof -
  have "le_val (le_bytes 4 (unat w)) = unat w mod 256 ^ 4" by (rule le_val_le_bytes)
  moreover have "unat w < 2 ^ 32" using unsigned_less [of w] by simp
  ultimately have "le_val (le_bytes 4 (unat w)) = unat w" by simp
  then show ?thesis by (simp add: le32_dec_def le32_def le_word_val)
qed



lemma file_write_0: "bs \<noteq> [] \<Longrightarrow> file_write f bs 0 = bs @ drop (length bs) f"
  by (simp add: file_write_def)

lemma le32_dec_take: "le32_dec (take 4 bs @ cs) = le32_dec bs" if "4 \<le> length bs"
  using that by (simp add: le32_dec_def)

lemma get_tid_unfold:
  assumes r: "spread (s\<lparr>jlocked := True\<rparr>) LockFd (replicate 4 0) 4 0 = (r1, cb, s2)"
    and w: "spwrite s2 LockFd (le32 (if le32_dec cb + 1 = 0 then 1 else le32_dec cb + 1)) 4 0 = (r2, s3)"
  shows "get_tid s =
     (if r1 \<noteq> 4 then (0, s2\<lparr>jlocked := False\<rparr>)
      else if r2 \<noteq> 4 then (0, s3\<lparr>jlocked := False\<rparr>)
      else (if le32_dec cb + 1 = 0 then 1 else le32_dec cb + 1, s3\<lparr>jlocked := False\<rparr>))"
  using r w by (simp add: get_tid_def Let_def)

text \<open>
  C6: in \<open>get_tid\<close>, with \<open>r1\<close> the result of the read of the counter and \<open>r2\<close> the
  result of the write: the lock on the lock file is released on every path; when both
  calls transfer their four bytes the result is the stored counter plus one modulo
  \<open>2^32\<close>, with 1 in place of 0, it is not 0, and it is the counter the lock file holds
  afterwards; when either call fails the result is the sentinel 0.
\<close>

theorem get_tid_spec:
  assumes g: "get_tid s = (rv, s')"
    and r: "spread (s\<lparr>jlocked := True\<rparr>) LockFd (replicate 4 0) 4 0 = (r1, cb, s2)"
    and w: "spwrite s2 LockFd (le32 (if le32_dec cb + 1 = 0 then 1 else le32_dec cb + 1)) 4 0 = (r2, s3)"
  shows "\<not> jlocked s' \<and>
    (r1 = 4 \<and> r2 = 4 \<longrightarrow>
       4 \<le> length (jfile s) \<and>
       rv = (if le32_dec (jfile s) + 1 = 0 then 1 else le32_dec (jfile s) + 1) \<and>
       rv \<noteq> 0 \<and> le32_dec (jfile s') = rv) \<and>
    (r1 \<noteq> 4 \<or> r2 \<noteq> 4 \<longrightarrow> rv = 0)"
proof -
  note u = get_tid_unfold [OF r w]
  have unl: "\<not> jlocked s'" using g u by (auto split: if_splits)
  have fail: "r1 \<noteq> 4 \<or> r2 \<noteq> 4 \<longrightarrow> rv = 0" using g u by (auto split: if_splits)
  have ok: "4 \<le> length (jfile s) \<and>
       rv = (if le32_dec (jfile s) + 1 = 0 then 1 else le32_dec (jfile s) + 1) \<and>
       rv \<noteq> 0 \<and> le32_dec (jfile s') = rv" if r14: "r1 = 4" and r24: "r2 = 4"
  proof -
    let ?n = "if le32_dec cb + 1 = 0 then 1 else le32_dec cb + 1 :: u32"
    have ff: "fd_file (s\<lparr>jlocked := True\<rparr>) LockFd = Some (jfile s)" by simp
    from spread_res [OF r ff] r14 obtain o1 where
      s2: "s2 = s\<lparr>jlocked := True, outcomes := o1\<rparr>"
      and n: "nat 4 = min 4 (length (jfile s) - 0)"
      and cb: "cb = take (nat 4) (drop 0 (jfile s)) @ drop (nat 4) (replicate 4 0)"
      by auto
    from n have len: "4 \<le> length (jfile s)" by simp
    from cb len have c: "le32_dec cb = le32_dec (jfile s)"
      using le32_dec_take [of "jfile s" "[]"] by simp
    have ff2: "fd_file s2 LockFd = Some (jfile s)" using s2 by simp
    have l4: "4 \<le> length (le32 ?n)" by simp
    from spwrite_res [OF w ff2 l4] r24 obtain o2 where
      s3: "s3 = fd_put LockFd (file_write (jfile s) (take 4 (le32 ?n)) 0) (s2\<lparr>outcomes := o2\<rparr>)"
      by auto
    have ne: "le32 ?n \<noteq> []" using length_le32 [of ?n] by (metis length_0_conv zero_neq_numeral)
    have jf: "jfile s3 = le32 ?n @ drop 4 (jfile s)"
      using s3 ne by (simp add: file_write_0)
    from g u r14 r24 have rv: "rv = ?n" and s': "s' = s3\<lparr>jlocked := False\<rparr>"
      by (auto split: if_splits)
    have "le32_dec (jfile s') = rv" using s' jf rv by (simp add: le32_dec_le32)
    moreover have "rv \<noteq> 0" using rv by (auto split: if_splits)
    ultimately show ?thesis using len rv c by simp
  qed
  from unl fail ok show ?thesis by blast
qed




text \<open>The counter \<open>0xFFFFFFFF\<close> wraps to 1, here with short transfers on the way.\<close>

theorem get_tid_spec_witness:
  "fst (get_tid w_wrap) = 1 \<and> \<not> jlocked (snd (get_tid w_wrap)) \<and>
   le32_dec (jfile w_wrap) + 1 = 0 \<and> le32_dec (jfile (snd (get_tid w_wrap))) = 1"
proof -
  let ?r = "spread (w_wrap\<lparr>jlocked := True\<rparr>) LockFd (replicate 4 0) 4 0"
  let ?cb = "fst (snd ?r)"
  let ?w = "spwrite (snd (snd ?r)) LockFd
              (le32 (if le32_dec ?cb + 1 = 0 then 1 else le32_dec ?cb + 1)) 4 0"
  have r1: "fst ?r = 4" by code_simp
  have r2: "fst ?w = 4" by code_simp
  have c: "le32_dec (jfile w_wrap) + 1 = 0" by code_simp
  have g: "get_tid w_wrap = (fst (get_tid w_wrap), snd (get_tid w_wrap))" by simp
  have r: "?r = (fst ?r, ?cb, snd (snd ?r))" by simp
  have w: "?w = (fst ?w, snd ?w)" by simp
  from get_tid_spec [OF g r w] r1 r2 c show ?thesis by simp
qed


section \<open>Parsing a record (check.c)\<close>

lemma fill_ops_Some:
  "fill_ops m n p os s = (Some os', s') \<Longrightarrow>
     record_fits m n p \<and>
     (\<exists>new. os' = os @ new \<and> length new = n \<and>
        (\<forall>x \<in> set new. p + 16 \<le> op_buf x \<and> op_buf x + op_len x \<le> length m))"
proof (induction n arbitrary: p os s)
  case 0
  then show ?case by simp
next
  case (Suc n)
  let ?l = "le_val (take 4 (drop p m))"
  let ?x = "\<lparr>op_len = ?l, op_plen = le_val (take 4 (drop (p + 4) m)),
             op_offset = le_val (take 8 (drop (p + 8) m)), op_buf = p + 16,
             op_pdata = None\<rparr>"
  obtain mo s1 where pp: "pop s = (mo, s1)" by (cases "pop s")
  from Suc.prems pp have h: "p + 16 \<le> length m" "mo \<noteq> Fail" "p + 16 + ?l \<le> length m"
    and rec: "fill_ops m n (p + 16 + ?l) (os @ [?x]) s1 = (Some os', s')"
    by (auto simp: J_DISKOPHEADSIZE_def Let_def split: if_splits)
  from Suc.IH [OF rec] obtain new where
    fits: "record_fits m n (p + 16 + ?l)"
    and new: "os' = (os @ [?x]) @ new" "length new = n"
      "\<forall>x \<in> set new. p + 16 + ?l + 16 \<le> op_buf x \<and> op_buf x + op_len x \<le> length m"
    by blast
  have "os' = os @ (?x # new)" using new(1) by simp
  moreover have "length (?x # new) = Suc n" using new(2) by simp
  moreover have "\<forall>y \<in> set (?x # new). p + 16 \<le> op_buf y \<and> op_buf y + op_len y \<le> length m"
    using new(3) h by auto
  ultimately show ?case using fits h by (intro conjI exI [of _ "?x # new"]) simp_all
qed

text \<open>
  C8: \<open>fill_trans\<close> returns 0 whenever the fixed header, a declared operation header or
  a declared operation body does not fit in the \<open>length m\<close> bytes of the map; when it
  does not return 0 it returns 1, it has appended exactly \<open>numops\<close> operations, and the
  data of each of them, \<open>op_len\<close> bytes from \<open>op_buf\<close>, lies inside the map.
\<close>

theorem fill_trans_bounds:
  assumes "fill_trans m ts s = (rv, ts', s')"
  shows "(\<not> (J_DISKHEADSIZE \<le> length m \<and> record_fits m (le_val (take 4 (drop 8 m))) 12)
            \<longrightarrow> rv = 0) \<and>
         (rv \<noteq> 0 \<longrightarrow> rv = 1 \<and>
            (\<exists>new. ops ts' = ops ts @ new \<and> length new = numops ts' \<and>
               (\<forall>x \<in> set new. op_buf x + op_len x \<le> length m)))"
proof (cases "length m < J_DISKHEADSIZE")
  case True
  with assms show ?thesis by (simp add: fill_trans_def)
next
  case False
  let ?n = "le_val (take 4 (drop 8 m))"
  obtain r s1 where f: "fill_ops m ?n 12 (ops ts) s = (r, s1)"
    by (cases "fill_ops m ?n 12 (ops ts) s")
  show ?thesis
  proof (cases r)
    case None
    with assms False f show ?thesis by (simp add: fill_trans_def Let_def)
  next
    case (Some os')
    with assms False f have rv: "rv = 1" "ops ts' = os'" "numops ts' = ?n"
      by (auto simp: fill_trans_def Let_def)
    from fill_ops_Some [OF f [unfolded Some]] obtain new where
      "record_fits m ?n 12" "os' = ops ts @ new" "length new = ?n"
      "\<forall>x \<in> set new. 12 + 16 \<le> op_buf x \<and> op_buf x + op_len x \<le> length m"
      by blast
    with rv False show ?thesis by auto
  qed
qed

text \<open>
  A record of 34 bytes with one operation of two bytes parses, and its data lies at
  offsets 28 and 29.
\<close>

theorem fill_trans_bounds_witness:
  "fst (fill_trans w_rec jtrans_init_ck w_idle) = 1 \<and>
   length (ops (fst (snd (fill_trans w_rec jtrans_init_ck w_idle)))) = 1 \<and>
   op_buf (hd (ops (fst (snd (fill_trans w_rec jtrans_init_ck w_idle))))) = 28 \<and>
   op_buf (hd (ops (fst (snd (fill_trans w_rec jtrans_init_ck w_idle))))) +
   op_len (hd (ops (fst (snd (fill_trans w_rec jtrans_init_ck w_idle))))) \<le> length w_rec"
proof -
  let ?f = "fill_trans w_rec jtrans_init_ck w_idle"
  have e: "?f = (fst ?f, fst (snd ?f), snd (snd ?f))" by simp
  have r: "fst ?f = 1" by code_simp
  have l: "length (ops (fst (snd ?f))) = 1" by code_simp
  have b: "op_buf (hd (ops (fst (snd ?f)))) = 28" by code_simp
  have i: "ops jtrans_init_ck = []" by (simp add: jtrans_init_ck_def)
  from fill_trans_bounds [OF e] r i
  have "\<forall>x \<in> set (ops (fst (snd ?f))). op_buf x + op_len x \<le> length w_rec" by auto
  moreover have "hd (ops (fst (snd ?f))) \<in> set (ops (fst (snd ?f)))"
    using l by (cases "ops (fst (snd ?f))") auto
  ultimately show ?thesis using r l b by blast
qed

section \<open>Recovery (check.c)\<close>

declare jfsck_loop.simps [simp del]

lemma pop_take:
  assumes "Fail \<notin> set (take (Suc k) (outcomes s))"
  shows "fst (pop s) \<noteq> Fail \<and> snd (pop s) = s\<lparr>outcomes := tl (outcomes s)\<rparr> \<and>
         Fail \<notin> set (take k (tl (outcomes s)))"
  using assms by (cases "outcomes s") (auto simp: pop_def)

lemma fill_ops_fits:
  "Fail \<notin> set (take n (outcomes s)) \<Longrightarrow> record_fits m n p \<Longrightarrow>
     \<exists>os' o'. fill_ops m n p os s = (Some os', s\<lparr>outcomes := o'\<rparr>)"
proof (induction n arbitrary: p os s)
  case 0
  show ?case by (intro exI [of _ os] exI [of _ "outcomes s"]) simp
next
  case (Suc n)
  let ?l = "le_val (take 4 (drop p m))"
  let ?x = "\<lparr>op_len = ?l, op_plen = le_val (take 4 (drop (p + 4) m)),
             op_offset = le_val (take 8 (drop (p + 8) m)), op_buf = p + 16,
             op_pdata = None\<rparr>"
  let ?s1 = "s\<lparr>outcomes := tl (outcomes s)\<rparr>"
  from pop_take [OF Suc.prems(1)] have
    p: "fst (pop s) \<noteq> Fail" "snd (pop s) = ?s1" "Fail \<notin> set (take n (outcomes ?s1))"
    by simp_all
  from Suc.prems(2) have f: "p + 16 \<le> length m" "p + 16 + ?l \<le> length m"
    "record_fits m n (p + 16 + ?l)" by simp_all
  from Suc.IH [OF p(3) f(3), of "os @ [?x]"] obtain os' o' where
    "fill_ops m n (p + 16 + ?l) (os @ [?x]) ?s1 = (Some os', ?s1\<lparr>outcomes := o'\<rparr>)" by blast
  moreover have "fill_ops m (Suc n) p os s = fill_ops m n (p + 16 + ?l) (os @ [?x]) ?s1"
    using p f by (cases "pop s") (simp add: J_DISKOPHEADSIZE_def Let_def)
  ultimately show ?case by (intro exI [of _ os'] exI [of _ o']) simp
qed

lemma fill_trans_fits:
  assumes "Fail \<notin> set (take (le_val (take 4 (drop 8 m))) (outcomes s))"
    "J_DISKHEADSIZE \<le> length m" "record_fits m (le_val (take 4 (drop 8 m))) 12"
  shows "\<exists>ts' o'. fill_trans m ts s = (1, ts', s\<lparr>outcomes := o'\<rparr>)"
proof -
  from fill_ops_fits [OF assms(1) assms(3), of "ops ts"] obtain os' o' where
    "fill_ops m (le_val (take 4 (drop 8 m))) 12 (ops ts) s = (Some os', s\<lparr>outcomes := o'\<rparr>)"
    by blast
  with assms(2) show ?thesis by (auto simp: fill_trans_def Let_def)
qed

lemma jfsck_rec_total: "jfsck_rec cs commit curts m res s = (res', s') \<Longrightarrow> total res' = total res"
  by (auto simp: jfsck_rec_def Let_def split: prod.splits if_splits)

lemma jfsck_one_total: "jfsck_one cs commit i res s = (res', s') \<Longrightarrow> total res' = total res + 1"
  by (auto simp: jfsck_one_def Let_def split: prod.splits if_splits option.splits
      dest: jfsck_rec_total)

lemma jfsck_loop_total:
  "jfsck_loop cs commit maxtid i res s = (J_ESUCCESS, res', s') \<Longrightarrow>
     total res' = total res + (Suc maxtid - i)"
proof (induction cs commit maxtid i res s rule: jfsck_loop.induct)
  case (1 cs commit maxtid i res s)
  show ?case
  proof (cases "i \<le> maxtid")
    case False
    with "1.prems" show ?thesis by (simp add: jfsck_loop.simps [of cs commit maxtid i res s])
  next
    case True
    obtain mo s1 where p: "pop s = (mo, s1)" by (cases "pop s")
    obtain r1 s2 where o: "jfsck_one cs commit i res s1 = (r1, s2)"
      by (cases "jfsck_one cs commit i res s1")
    from "1.prems" True p o have nf: "mo \<noteq> Fail"
      and rec: "jfsck_loop cs commit maxtid (i + 1) r1 s2 = (J_ESUCCESS, res', s')"
      by (auto simp: jfsck_loop.simps [of cs commit maxtid i res s] split: if_splits)
    from "1.IH" [OF True p [symmetric] nf o [symmetric] rec]
    have "total res' = total r1 + (Suc maxtid - (i + 1))" .
    with jfsck_one_total [OF o] True show ?thesis by simp
  qed
qed

lemma jfsck_total:
  assumes "jfsck cs commit jdir_null dents s = (J_ESUCCESS, res', s')"
  shows "total res' = find_maxtid dents"
proof -
  let ?res = "\<lparr>total = 0, invalid = 0, in_progress = 0, broken = 0, corrupt = 0,
                 apply_error = 0, reapplied = 0\<rparr>"
  from assms obtain s2 where
    "jfsck_loop cs commit (find_maxtid dents) 1 ?res s2 = (J_ESUCCESS, res', s')"
    by (auto simp: jfsck_def Let_def split: prod.splits if_splits)
  from jfsck_loop_total [OF this] show ?thesis by simp
qed





lemma jfsck_one_corrupt:
  assumes nf: "Fail \<notin> set (take (3 + le_val (take 4 (drop 8 m))) (outcomes s))"
    and rec: "recs s (of_nat i) = Some m"
    and parse: "J_DISKHEADSIZE \<le> length m" "record_fits m (le_val (take 4 (drop 8 m))) 12"
    and bad: "cs (take (length m - 4) m) \<noteq> le32_dec (drop (length m - 4) m)"
  shows "\<exists>o'. jfsck_one cs commit i res s =
               (res\<lparr>corrupt := corrupt res + 1, total := total res + 1\<rparr>,
                s\<lparr>ropen := ropen s - {of_nat i}, outcomes := o'\<rparr>)"
proof -
  let ?n = "le_val (take 4 (drop 8 m))"
  let ?s2 = "s\<lparr>outcomes := tl (outcomes s)\<rparr>"
  let ?s2' = "?s2\<lparr>ropen := insert (of_nat i) (ropen s)\<rparr>"
  let ?s3 = "?s2'\<lparr>outcomes := tl (tl (outcomes s))\<rparr>"
  let ?s4 = "?s2'\<lparr>outcomes := tl (tl (tl (outcomes s)))\<rparr>"
  let ?curts = "jtrans_init_ck\<lparr>ck_id := of_nat i\<rparr>"
  have n3: "3 + ?n = Suc (Suc (Suc ?n))" by simp
  from pop_take [OF nf [unfolded n3]] have
    p2: "fst (pop s) \<noteq> Fail" "snd (pop s) = ?s2"
        "Fail \<notin> set (take (Suc (Suc ?n)) (outcomes ?s2))" by simp_all
  then have p2': "Fail \<notin> set (take (Suc (Suc ?n)) (outcomes ?s2'))" by simp
  from pop_take [OF p2'] have
    p3: "fst (pop ?s2') \<noteq> Fail" "snd (pop ?s2') = ?s3"
        "Fail \<notin> set (take (Suc ?n) (outcomes ?s3))" by simp_all
  from pop_take [OF p3(3)] have
    p4: "fst (pop ?s3) \<noteq> Fail" "snd (pop ?s3) = ?s4"
        "Fail \<notin> set (take ?n (outcomes ?s4))" by simp_all
  from fill_trans_fits [OF p4(3) parse, of ?curts] obtain ts' o' where
    ft: "fill_trans m ?curts ?s4 = (1, ts', ?s4\<lparr>outcomes := o'\<rparr>)" by blast
  have jr: "jfsck_rec cs commit ?curts m res ?s2' =
              (res\<lparr>corrupt := corrupt res + 1\<rparr>, ?s4\<lparr>outcomes := o'\<rparr>)"
    using p3 p4 ft bad
    by (cases "pop ?s2'"; cases "pop ?s3") (simp add: jfsck_rec_def Let_def)
  have "jfsck_one cs commit i res s =
              (res\<lparr>corrupt := corrupt res + 1, total := total res + 1\<rparr>,
               s\<lparr>ropen := ropen s - {of_nat i}, outcomes := o'\<rparr>)"
    using p2 rec jr
    by (cases "pop s") (simp add: jfsck_one_def Let_def)
  then show ?thesis by blast
qed

lemma jfsck_loop_rounds:
  "jfsck_loop cs commit maxtid i res s = jfsck_rounds cs commit [i..<Suc maxtid] res s"
proof (induction cs commit maxtid i res s rule: jfsck_loop.induct)
  case (1 cs commit maxtid i res s)
  show ?case
  proof (cases "i \<le> maxtid")
    case False
    then have "[i..<Suc maxtid] = []" by simp
    with False show ?thesis by (simp add: jfsck_loop.simps [of cs commit maxtid i res s])
  next
    case True
    then have u: "[i..<Suc maxtid] = i # [i + 1..<Suc maxtid]" by (simp add: upt_conv_Cons)
    obtain mo s1 where p: "pop s = (mo, s1)" by (cases "pop s")
    show ?thesis
    proof (cases "mo = Fail")
      case f: True
      with True p show ?thesis
        unfolding u by (simp add: jfsck_loop.simps [of cs commit maxtid i res s])
    next
      case nf: False
      obtain r1 s2 where o: "jfsck_one cs commit i res s1 = (r1, s2)"
        by (cases "jfsck_one cs commit i res s1")
      from "1.IH" [OF True p [symmetric] nf o [symmetric]]
      have "jfsck_loop cs commit maxtid (i + 1) r1 s2 =
            jfsck_rounds cs commit [i + 1..<Suc maxtid] r1 s2" .
      with True p nf o show ?thesis
        unfolding u by (simp add: jfsck_loop.simps [of cs commit maxtid i res s])
    qed
  qed
qed

lemma jfsck_rounds_run:
  assumes "jfsck_setup ([J_ENOENT] @ (if jdir_null then [J_ENOMEM, J_ENOMEM] else [J_ENOMEM]) @
                  [J_ENOJOURNAL, J_ENOJOURNAL, J_ENOJOURNAL, J_ENOJOURNAL, J_ENOJOURNAL]) s
             = (J_ESUCCESS, sa)"
    and "spwrite sa LockFd (le32 (of_nat (find_maxtid dents))) 4 0 = (4, sb)"
  shows "jfsck cs commit jdir_null dents s =
           jfsck_rounds cs commit [1..<Suc (find_maxtid dents)]
             \<lparr>total = 0, invalid = 0, in_progress = 0, broken = 0, corrupt = 0,
              apply_error = 0, reapplied = 0\<rparr> sb"
  using assms by (simp add: jfsck_def Let_def jfsck_loop_rounds)


text \<open>
  C5: take a round of the loop of \<open>jfsck\<close> for the id \<open>i\<close>, in the world \<open>s\<close> reached
  after \<open>curts\<close> was allocated, in which the open, the try-lock, \<open>mmap\<close> and the
  allocations of the parser succeed, the record parses and its trailing checksum differs
  from the checksum of the bytes before it. Then
  \<^item> the round returns the counters with \<open>corrupt\<close> and \<open>total\<close> each one higher and all
    others as they were, and a world that differs only in the record being closed and
    in the outcomes consumed: the data file, the lock file and the records are
    untouched (\<open>commit\<close> is not called);
  \<^item> the run over \<open>i\<close> and the remaining ids goes on with the remaining ids from
    exactly those counters and that world;
  \<^item> the loop of \<open>jfsck\<close> from \<open>k\<close> is this run over the ids \<open>k, ..., maxtid\<close> in order,
    and \<open>jfsck\<close> itself, once its preparation and the rewrite of the lock file have
    succeeded, is the run over \<open>1, ..., maxtid\<close> from counters that are all zero;
  \<^item> whenever \<open>jfsck\<close> returns success, \<open>total\<close> is \<open>maxtid\<close>.
\<close>

theorem jfsck_corrupt_record:
  assumes nf: "Fail \<notin> set (take (3 + le_val (take 4 (drop 8 m))) (outcomes s))"
    and rec: "recs s (of_nat i) = Some m"
    and parse: "J_DISKHEADSIZE \<le> length m" "record_fits m (le_val (take 4 (drop 8 m))) 12"
    and bad: "cs (take (length m - 4) m) \<noteq> le32_dec (drop (length m - 4) m)"
  shows "(\<exists>o'. jfsck_one cs commit i res s =
               (res\<lparr>corrupt := corrupt res + 1, total := total res + 1\<rparr>,
                s\<lparr>ropen := ropen s - {of_nat i}, outcomes := o'\<rparr>)) \<and>
         (pop s_pre = (mo, s) \<and> mo \<noteq> Fail \<longrightarrow>
            (\<exists>o'. jfsck_rounds cs commit (i # rest) res s_pre =
                  jfsck_rounds cs commit rest
                    (res\<lparr>corrupt := corrupt res + 1, total := total res + 1\<rparr>)
                    (s\<lparr>ropen := ropen s - {of_nat i}, outcomes := o'\<rparr>))) \<and>
         jfsck_loop cs commit maxtid k res0 s0 = jfsck_rounds cs commit [k..<Suc maxtid] res0 s0 \<and>
         (jfsck_setup ([J_ENOENT] @ (if jdir_null then [J_ENOMEM, J_ENOMEM] else [J_ENOMEM]) @
                  [J_ENOJOURNAL, J_ENOJOURNAL, J_ENOJOURNAL, J_ENOJOURNAL, J_ENOJOURNAL]) s1
             = (J_ESUCCESS, sa) \<and>
          spwrite sa LockFd (le32 (of_nat (find_maxtid dents))) 4 0 = (4, sb) \<longrightarrow>
            jfsck cs commit jdir_null dents s1 =
              jfsck_rounds cs commit [1..<Suc (find_maxtid dents)]
                \<lparr>total = 0, invalid = 0, in_progress = 0, broken = 0, corrupt = 0,
                 apply_error = 0, reapplied = 0\<rparr> sb) \<and>
         (jfsck cs commit jdir_null dents s1 = (J_ESUCCESS, res', s') \<longrightarrow>
            total res' = find_maxtid dents)"
proof -
  have one: "\<exists>o'. jfsck_one cs commit i res s =
               (res\<lparr>corrupt := corrupt res + 1, total := total res + 1\<rparr>,
                s\<lparr>ropen := ropen s - {of_nat i}, outcomes := o'\<rparr>)"
    using nf rec parse bad by (rule jfsck_one_corrupt)
  then obtain o' where o': "jfsck_one cs commit i res s =
               (res\<lparr>corrupt := corrupt res + 1, total := total res + 1\<rparr>,
                s\<lparr>ropen := ropen s - {of_nat i}, outcomes := o'\<rparr>)" ..
  have step: "pop s_pre = (mo, s) \<and> mo \<noteq> Fail \<longrightarrow>
            (\<exists>o'. jfsck_rounds cs commit (i # rest) res s_pre =
                  jfsck_rounds cs commit rest
                    (res\<lparr>corrupt := corrupt res + 1, total := total res + 1\<rparr>)
                    (s\<lparr>ropen := ropen s - {of_nat i}, outcomes := o'\<rparr>))"
  proof
    assume "pop s_pre = (mo, s) \<and> mo \<noteq> Fail"
    with o' have "jfsck_rounds cs commit (i # rest) res s_pre =
                  jfsck_rounds cs commit rest
                    (res\<lparr>corrupt := corrupt res + 1, total := total res + 1\<rparr>)
                    (s\<lparr>ropen := ropen s - {of_nat i}, outcomes := o'\<rparr>)" by simp
    then show "\<exists>o'. jfsck_rounds cs commit (i # rest) res s_pre =
                  jfsck_rounds cs commit rest
                    (res\<lparr>corrupt := corrupt res + 1, total := total res + 1\<rparr>)
                    (s\<lparr>ropen := ropen s - {of_nat i}, outcomes := o'\<rparr>)" ..
  qed
  have loop: "jfsck_loop cs commit maxtid k res0 s0 =
              jfsck_rounds cs commit [k..<Suc maxtid] res0 s0"
    by (rule jfsck_loop_rounds)
  have run: "jfsck_setup ([J_ENOENT] @ (if jdir_null then [J_ENOMEM, J_ENOMEM] else [J_ENOMEM]) @
                  [J_ENOJOURNAL, J_ENOJOURNAL, J_ENOJOURNAL, J_ENOJOURNAL, J_ENOJOURNAL]) s1
             = (J_ESUCCESS, sa) \<and>
          spwrite sa LockFd (le32 (of_nat (find_maxtid dents))) 4 0 = (4, sb) \<longrightarrow>
            jfsck cs commit jdir_null dents s1 =
              jfsck_rounds cs commit [1..<Suc (find_maxtid dents)]
                \<lparr>total = 0, invalid = 0, in_progress = 0, broken = 0, corrupt = 0,
                 apply_error = 0, reapplied = 0\<rparr> sb"
    using jfsck_rounds_run [of jdir_null s1 sa dents sb cs commit] by blast
  have tot: "jfsck cs commit jdir_null dents s1 = (J_ESUCCESS, res', s') \<longrightarrow>
            total res' = find_maxtid dents"
    using jfsck_total [of cs commit jdir_null dents s1 res' s'] by blast
  from one step loop run tot show ?thesis by (intro conjI)
qed

text \<open>
  A journal whose only record, 1, carries a checksum that does not match: the round
  counts it as corrupt and leaves the two bytes of the data file alone, and \<open>jfsck\<close>
  reports success with \<open>corrupt = 1\<close>, \<open>total = 1\<close> and every other counter 0.
\<close>

theorem jfsck_corrupt_record_witness:
  "fst (jfsck_one (\<lambda>bs. 0) (\<lambda>ts m s. (0, s)) 1 r_zero w_fsck) = r_zero\<lparr>corrupt := 1, total := 1\<rparr> \<and>
   dfile (snd (jfsck_one (\<lambda>bs. 0) (\<lambda>ts m s. (0, s)) 1 r_zero w_fsck)) = dfile w_fsck \<and>
   fst (jfsck (\<lambda>bs. 0) (\<lambda>ts m s. (0, s)) True [0, 0, 1, 0] w_fsck) = J_ESUCCESS \<and>
   fst (snd (jfsck (\<lambda>bs. 0) (\<lambda>ts m s. (0, s)) True [0, 0, 1, 0] w_fsck)) =
     r_zero\<lparr>corrupt := 1, total := 1\<rparr> \<and>
   total (fst (snd (jfsck (\<lambda>bs. 0) (\<lambda>ts m s. (0, s)) True [0, 0, 1, 0] w_fsck))) =
     find_maxtid [0, 0, 1, 0]"
proof -
  let ?cs = "\<lambda>bs :: byte list. 0 :: u32"
  let ?commit = "\<lambda>(ts :: jtrans_ck) (m :: byte list) (s :: world). (0 :: int, s)"
  let ?j = "jfsck ?cs ?commit True [0, 0, 1, 0] w_fsck"
  have nf: "Fail \<notin> set (take (3 + le_val (take 4 (drop 8 w_rec))) (outcomes w_fsck))"
    by (simp add: w_fsck_def)
  have rec: "recs w_fsck (of_nat 1) = Some w_rec" by (simp add: w_fsck_def)
  have p1: "J_DISKHEADSIZE \<le> length w_rec" by code_simp
  have p2: "record_fits w_rec (le_val (take 4 (drop 8 w_rec))) 12" by code_simp
  have bad: "?cs (take (length w_rec - 4) w_rec) \<noteq> le32_dec (drop (length w_rec - 4) w_rec)"
    by code_simp
  have je: "fst ?j = J_ESUCCESS" by code_simp
  have jr: "fst (snd ?j) = r_zero\<lparr>corrupt := 1, total := 1\<rparr>" by code_simp
  have "?j = (fst ?j, fst (snd ?j), snd (snd ?j))" by simp
  then have jeq: "?j = (J_ESUCCESS, fst (snd ?j), snd (snd ?j))" by (simp only: je)
  note th = jfsck_corrupt_record [where cs = ?cs and commit = ?commit and m = w_rec
      and s = w_fsck and i = 1 and res = r_zero and jdir_null = True
      and dents = "[0, 0, 1, 0]" and ?s1.0 = w_fsck and res' = "fst (snd ?j)"
      and s' = "snd (snd ?j)", OF nf rec p1 p2 bad]
  from th [THEN conjunct1] obtain o' where
    st: "jfsck_one ?cs ?commit 1 r_zero w_fsck =
           (r_zero\<lparr>corrupt := corrupt r_zero + 1, total := total r_zero + 1\<rparr>,
            w_fsck\<lparr>ropen := ropen w_fsck - {of_nat 1}, outcomes := o'\<rparr>)" ..
  have z: "corrupt r_zero = 0" "total r_zero = 0" by (simp_all add: r_zero_def)
  from th [THEN conjunct2, THEN conjunct2, THEN conjunct2, THEN conjunct2, THEN mp, OF jeq]
  have tot: "total (fst (snd ?j)) = find_maxtid [0, 0, 1, 0]" .
  show ?thesis unfolding st using z je jr tot by simp
qed

section \<open>Committing a transaction (libjio.c)\<close>

lemma get_tid_res:
  assumes g: "get_tid s = (id', s')"
  shows "\<exists>o' jf. s' = s\<lparr>jfile := jf, jlocked := False, outcomes := o'\<rparr> \<and>
           set o' \<subseteq> set (outcomes s) \<and> length (jfile s) \<le> length jf \<and>
           (id' \<noteq> 0 \<longrightarrow> 4 \<le> length (jfile s)) \<and>
           (Fail \<notin> set (outcomes s) \<and> 4 \<le> length (jfile s) \<longrightarrow> id' \<noteq> 0)"
proof -
  obtain r1 cb s2 where r: "spread (s\<lparr>jlocked := True\<rparr>) LockFd (replicate 4 0) 4 0 = (r1, cb, s2)"
    by (cases "spread (s\<lparr>jlocked := True\<rparr>) LockFd (replicate 4 0) 4 0")
  let ?n = "if le32_dec cb + 1 = 0 then 1 else le32_dec cb + 1 :: u32"
  obtain r2 s3 where w: "spwrite s2 LockFd (le32 ?n) 4 0 = (r2, s3)"
    by (cases "spwrite s2 LockFd (le32 ?n) 4 0")
  note u = get_tid_unfold [OF r w]
  have ff: "fd_file (s\<lparr>jlocked := True\<rparr>) LockFd = Some (jfile s)" by simp
  have l4: "4 \<le> length (replicate 4 (0 :: byte))" by simp
  from spread_res [OF r ff l4] obtain o1 where
    s2: "s2 = s\<lparr>jlocked := True, outcomes := o1\<rparr>" and o1: "set o1 \<subseteq> set (outcomes s)"
    and rd: "0 \<le> r1 \<longrightarrow> nat r1 = min 4 (length (jfile s))"
    and rn: "Fail \<notin> set (outcomes s) \<longrightarrow> 0 \<le> r1"
    by auto
  have ff2: "fd_file s2 LockFd = Some (jfile s)" using s2 by simp
  have l4': "4 \<le> length (le32 ?n)" by simp
  from spwrite_res [OF w ff2 l4'] obtain o2 f' where
    s3: "s3 = fd_put LockFd f' (s2\<lparr>outcomes := o2\<rparr>)" and o2: "set o2 \<subseteq> set (outcomes s2)"
    and lf: "length (jfile s) \<le> length f'"
    and wn: "Fail \<notin> set (outcomes s2) \<longrightarrow> r2 = 4"
    by auto
  have r14: "r1 = 4 \<longrightarrow> 4 \<le> length (jfile s)" using rd by auto
  have n0: "?n \<noteq> 0" by simp
  show ?thesis
  proof (cases "r1 = 4")
    case False
    with u g have e: "id' = 0" "s' = s2\<lparr>jlocked := False\<rparr>" by auto
    have "\<not> (Fail \<notin> set (outcomes s) \<and> 4 \<le> length (jfile s))"
      using False rd rn by auto
    with e s2 o1 show ?thesis
      by (intro exI [of _ o1] exI [of _ "jfile s"]) auto
  next
    case True
    with u g have e: "id' = (if r2 \<noteq> 4 then 0 else ?n)" "s' = s3\<lparr>jlocked := False\<rparr>"
      by (auto split: if_splits)
    have "Fail \<notin> set (outcomes s) \<longrightarrow> r2 = 4" using wn s2 o1 by auto
    with e s2 s3 o1 o2 lf r14 True n0 show ?thesis
      by (intro exI [of _ o2] exI [of _ f']) auto
  qed
qed


lemma commit_save_prev_res:
  assumes c: "commit_save_prev ts s = (ok, ts1, s1)"
  defines "p \<equiv> min (len ts) (length (dfile s) - offset ts)"
  shows "\<exists>o' pd pl. set o' \<subseteq> set (outcomes s) \<and> ts1 = ts\<lparr>pdata := pd, plen := pl\<rparr> \<and>
           (Fail \<notin> set (outcomes s) \<longrightarrow> ok) \<and>
           (ok \<longrightarrow> pd = Some (take p (drop (offset ts) (dfile s)) @ drop p (map (fresh s) [0..<len ts])) \<and>
                  pl = p \<and>
                  s1 = s\<lparr>dfile := (if p < len ts then file_truncate (dfile s) (offset ts + len ts)
                                    else dfile s), outcomes := o'\<rparr>) \<and>
           (\<not> ok \<longrightarrow> s1 = s\<lparr>outcomes := o'\<rparr>)"
proof -
  obtain m s0 where pp: "pop s = (m, s0)" by (cases "pop s")
  from pop_res [OF pp] obtain o0 where
    o0: "s0 = s\<lparr>outcomes := o0\<rparr>" "set o0 \<subseteq> set (outcomes s)"
        "Fail \<notin> set (outcomes s) \<longrightarrow> m \<noteq> Fail" by blast
  show ?thesis
  proof (cases "m = Fail")
    case True
    with c pp have "ok = False" "ts1 = ts\<lparr>pdata := None\<rparr>" "s1 = s0"
      by (auto simp: commit_save_prev_def)
    with o0 True show ?thesis
      by (intro exI [of _ o0] exI [of _ None] exI [of _ "plen ts"]) auto
  next
    case False
    let ?b0 = "map (fresh s) [0..<len ts]"
    have fr0: "fresh s0 = fresh s" using o0 by simp
    obtain rv pd s2 where r: "spread s0 DataFd ?b0 (len ts) (offset ts) = (rv, pd, s2)"
      by (cases "spread s0 DataFd ?b0 (len ts) (offset ts)")
    have ff: "fd_file s0 DataFd = Some (dfile s)" using o0 by simp
    have ll: "len ts \<le> length ?b0" by simp
    from spread_res [OF r ff ll] obtain o1 where
      sr: "s2 = s0\<lparr>outcomes := o1\<rparr> \<and> set o1 \<subseteq> set (outcomes s0) \<and>
          length pd = length ?b0 \<and>
          (0 \<le> rv \<longrightarrow> nat rv = min (len ts) (length (dfile s) - offset ts) \<and>
             pd = take (nat rv) (drop (offset ts) (dfile s)) @
                  drop (nat rv) ?b0) \<and>
          (Fail \<notin> set (outcomes s0) \<longrightarrow> 0 \<le> rv)" ..
    have s2: "s2 = s\<lparr>outcomes := o1\<rparr>" using sr o0(1) by simp
    have o1: "set o1 \<subseteq> set (outcomes s)" using sr o0 by auto
    have rd: "0 \<le> rv \<longrightarrow> nat rv = p \<and>
                 pd = take p (drop (offset ts) (dfile s)) @ drop p (map (fresh s) [0..<len ts])"
    proof
      assume "0 \<le> rv"
      with sr have a: "nat rv = p"
        and b: "pd = take (nat rv) (drop (offset ts) (dfile s)) @ drop (nat rv) ?b0"
        unfolding p_def by blast+
      from a b show "nat rv = p \<and>
                 pd = take p (drop (offset ts) (dfile s)) @ drop p (map (fresh s) [0..<len ts])"
        by (simp only:)
    qed
    have rn: "Fail \<notin> set (outcomes s) \<longrightarrow> 0 \<le> rv"
      using sr o0 by auto
    from c pp False r fr0 have u:
      "(ok, ts1, s1) =
         (if rv < 0 then (False, ts\<lparr>pdata := Some pd, plen := len ts\<rparr>, s2)
          else if rv < int (len ts) then
            (True, ts\<lparr>pdata := Some pd, plen := nat rv\<rparr>,
             s2\<lparr>dfile := file_truncate (dfile s2) (offset ts + len ts)\<rparr>)
          else (True, ts\<lparr>pdata := Some pd, plen := len ts\<rparr>, s2))"
      by (auto simp: commit_save_prev_def Let_def split: if_splits)
    show ?thesis
    proof (cases "rv < 0")
      case True
      with u rn s2 o1 show ?thesis
        by (intro exI [of _ o1] exI [of _ "Some pd"] exI [of _ "len ts"]) auto
    next
      case nn: False
      then have rv0: "0 \<le> rv" by simp
      with rd have np: "nat rv = p"
        and pdv: "pd = take p (drop (offset ts) (dfile s)) @ drop p (map (fresh s) [0..<len ts])" by auto
      have ple: "p \<le> len ts" unfolding p_def by simp
      show ?thesis
      proof (cases "rv < int (len ts)")
        case True
        then have "p < len ts" using np rv0 by linarith
        with u nn True s2 o1 np pdv show ?thesis
          by (intro exI [of _ o1] exI [of _ "Some pd"] exI [of _ p]) auto
      next
        case False
        then have "p = len ts" using np rv0 ple by linarith
        with u nn False s2 o1 np pdv show ?thesis
          by (intro exI [of _ o1] exI [of _ "Some pd"] exI [of _ p]) auto
      qed
    qed
  qed
qed

lemma rec_write_step:
  assumes w: "spwrite S (RecFd fd) b n off = (rv, S')"
    and S: "S = s\<lparr>dfile := d, recs := (recs s)(fd \<mapsto> r), outcomes := oc\<rparr>"
    and n: "n \<le> length b" and oc: "set oc \<subseteq> set (outcomes s)"
  shows "\<exists>r' o'. S' = s\<lparr>dfile := d, recs := (recs s)(fd \<mapsto> r'), outcomes := o'\<rparr> \<and>
           set o' \<subseteq> set (outcomes s) \<and> (Fail \<notin> set (outcomes s) \<longrightarrow> rv = int n)"
proof -
  have ff: "fd_file S (RecFd fd) = Some r" using S by simp
  from spwrite_res [OF w ff n] obtain o' f' where
    "S' = fd_put (RecFd fd) f' (S\<lparr>outcomes := o'\<rparr>)" "set o' \<subseteq> set (outcomes S)"
    "Fail \<notin> set (outcomes S) \<longrightarrow> rv = int n" by blast
  with S oc show ?thesis
    by (intro exI [of _ f'] exI [of _ o']) auto
qed

lemma commit_write_udata_res:
  assumes c: "commit_write_udata fd ts S = (ok, S')"
    and S: "S = s\<lparr>dfile := d, recs := (recs s)(fd \<mapsto> r), outcomes := oc\<rparr>"
    and wu: "\<forall>ud. udata ts = Some ud \<longrightarrow> ulen ts \<le> length ud"
    and oc: "set oc \<subseteq> set (outcomes s)"
  shows "\<exists>r' o'. S' = s\<lparr>dfile := d, recs := (recs s)(fd \<mapsto> r'), outcomes := o'\<rparr> \<and>
           set o' \<subseteq> set (outcomes s) \<and> (Fail \<notin> set (outcomes s) \<longrightarrow> ok)"
proof (cases "udata ts")
  case None
  with c have "ok" "S' = S" by (auto simp: commit_write_udata_def)
  with S oc show ?thesis by (intro exI [of _ r] exI [of _ oc]) simp
next
  case (Some ud)
  obtain rv S2 where w: "spwrite S (RecFd fd) ud (ulen ts) J_DISKTFIXSIZE = (rv, S2)"
    by (cases "spwrite S (RecFd fd) ud (ulen ts) J_DISKTFIXSIZE")
  with c Some have e: "ok = (rv = int (ulen ts))" "S' = S2"
    by (auto simp: commit_write_udata_def)
  from wu Some have n: "ulen ts \<le> length ud" by simp
  from rec_write_step [OF w S n oc] e show ?thesis by blast
qed

lemma length_disk_head: "length (disk_head ts) = 24"
  by (simp add: disk_head_def)

lemma commit_build_res:
  assumes c: "commit_build fd ts s = (ok, ts1, s1)"
    and r: "recs s fd = Some r0"
    and wb: "len ts \<le> length (buf ts)"
    and wu: "\<forall>ud. udata ts = Some ud \<longrightarrow> ulen ts \<le> length ud"
  defines "p \<equiv> min (len ts) (length (dfile s) - offset ts)"
  shows "\<exists>o' r' pd pl d'. set o' \<subseteq> set (outcomes s) \<and> ts1 = ts\<lparr>pdata := pd, plen := pl\<rparr> \<and>
           s1 = s\<lparr>dfile := d', recs := (recs s)(fd \<mapsto> r'), outcomes := o'\<rparr> \<and>
           (d' = dfile s \<or>
            d' = dfile s @ replicate (offset ts + len ts - length (dfile s)) 0) \<and>
           (Fail \<notin> set (outcomes s) \<longrightarrow> ok) \<and>
           (ok \<longrightarrow> pd = Some (take p (drop (offset ts) (dfile s)) @ drop p (map (fresh s) [0..<len ts])) \<and>
                  pl = p \<and>
                  d' = (if p < len ts then file_truncate (dfile s) (offset ts + len ts)
                        else dfile s))"
proof -
  let ?S = "\<lambda>d r' oc. s\<lparr>dfile := d, recs := (recs s)(fd \<mapsto> r'), outcomes := oc\<rparr>"
  let ?tr = "file_truncate (dfile s) (offset ts + len ts)"
  let ?pd = "take p (drop (offset ts) (dfile s)) @ drop p (map (fresh s) [0..<len ts])"
  have s0: "s = ?S (dfile s) r0 (outcomes s)" using r by (simp add: map_upd_triv)
  \<comment> \<open>the header\<close>
  obtain rv1 sa where w1: "spwrite s (RecFd fd) (disk_head ts) J_DISKTFIXSIZE 0 = (rv1, sa)"
    by (cases "spwrite s (RecFd fd) (disk_head ts) J_DISKTFIXSIZE 0")
  have n1: "J_DISKTFIXSIZE \<le> length (disk_head ts)"
    by (simp add: length_disk_head J_DISKTFIXSIZE_def)
  from rec_write_step [OF w1 s0 n1 subset_refl] obtain ra oa where
    sa: "sa = ?S (dfile s) ra oa" and oa: "set oa \<subseteq> set (outcomes s)"
    and f1: "Fail \<notin> set (outcomes s) \<longrightarrow> rv1 = int J_DISKTFIXSIZE" by blast
  show ?thesis
  proof (cases "rv1 = int J_DISKTFIXSIZE")
    case False
    with c w1 have "ok = False" "ts1 = ts" "s1 = sa" by (auto simp: commit_build_def)
    with sa oa f1 False show ?thesis
      by (intro exI [of _ oa] exI [of _ ra] exI [of _ "pdata ts"] exI [of _ "plen ts"]
            exI [of _ "dfile s"]) simp
  next
    case t1: True
    \<comment> \<open>the user data\<close>
    obtain ok2 sb where w2: "commit_write_udata fd ts sa = (ok2, sb)"
      by (cases "commit_write_udata fd ts sa")
    from commit_write_udata_res [OF w2 sa wu oa] obtain rb ob where
      sb: "sb = ?S (dfile s) rb ob" and ob: "set ob \<subseteq> set (outcomes s)"
      and f2: "Fail \<notin> set (outcomes s) \<longrightarrow> ok2" by blast
    show ?thesis
    proof (cases ok2)
      case False
      with c w1 t1 w2 have "ok = False" "ts1 = ts" "s1 = sb" by (auto simp: commit_build_def)
      with sb ob f2 False show ?thesis
        by (intro exI [of _ ob] exI [of _ rb] exI [of _ "pdata ts"] exI [of _ "plen ts"]
              exI [of _ "dfile s"]) simp
    next
      case t2: True
      \<comment> \<open>the previous contents\<close>
      obtain ok3 tsc sc where w3: "commit_save_prev ts sb = (ok3, tsc, sc)"
        by (cases "commit_save_prev ts sb")
      have dsb: "dfile sb = dfile s" "outcomes sb = ob" "fresh sb = fresh s"
        using sb by simp_all
      from commit_save_prev_res [OF w3] obtain o3 pd pl where
        sp: "set o3 \<subseteq> set (outcomes sb) \<and> tsc = ts\<lparr>pdata := pd, plen := pl\<rparr> \<and>
           (Fail \<notin> set (outcomes sb) \<longrightarrow> ok3) \<and>
           (ok3 \<longrightarrow> pd = Some (take (min (len ts) (length (dfile sb) - offset ts))
                                (drop (offset ts) (dfile sb)) @
                             drop (min (len ts) (length (dfile sb) - offset ts))
                               (map (fresh sb) [0..<len ts])) \<and>
                  pl = min (len ts) (length (dfile sb) - offset ts) \<and>
                  sc = sb\<lparr>dfile := (if min (len ts) (length (dfile sb) - offset ts) < len ts
                                     then file_truncate (dfile sb) (offset ts + len ts)
                                     else dfile sb), outcomes := o3\<rparr>) \<and>
           (\<not> ok3 \<longrightarrow> sc = sb\<lparr>outcomes := o3\<rparr>)"
        by blast
      have o3: "set o3 \<subseteq> set (outcomes s)" using sp dsb ob by auto
      have tsc: "tsc = ts\<lparr>pdata := pd, plen := pl\<rparr>" using sp by simp
      have f3: "Fail \<notin> set (outcomes s) \<longrightarrow> ok3" using sp dsb ob by auto
      show ?thesis
      proof (cases ok3)
        case False
        with sp have "sc = sb\<lparr>outcomes := o3\<rparr>" by simp
        then have scf: "sc = ?S (dfile s) rb o3" using sb by simp
        from False c w1 t1 w2 t2 w3 have "ok = False" "ts1 = tsc" "s1 = sc"
          by (auto simp: commit_build_def)
        with scf o3 f3 False tsc show ?thesis
          by (intro exI [of _ o3] exI [of _ rb] exI [of _ pd] exI [of _ pl]
                exI [of _ "dfile s"]) simp
      next
        case t3: True
        let ?d = "if p < len ts then ?tr else dfile s"
        from t3 sp dsb have pdv: "pd = Some ?pd" and plv: "pl = p"
          and "sc = sb\<lparr>dfile := ?d, outcomes := o3\<rparr>"
          unfolding p_def by simp_all
        then have scf: "sc = ?S ?d rb o3" using sb by simp
        have dalt: "?d = dfile s \<or>
                    ?d = dfile s @ replicate (offset ts + len ts - length (dfile s)) 0"
          unfolding p_def by (auto simp: file_truncate_def)
        \<comment> \<open>the previous contents and the new data go to the record\<close>
        have ltsc: "len tsc = len ts" "ulen tsc = ulen ts" "buf tsc = buf ts"
          "pdata tsc = Some ?pd" "plen tsc = p"
          using tsc pdv plv by simp_all
        obtain rv4 sd where w4: "spwrite sc (RecFd fd) ?pd (len ts) (J_DISKTFIXSIZE + ulen ts) = (rv4, sd)"
          by (cases "spwrite sc (RecFd fd) ?pd (len ts) (J_DISKTFIXSIZE + ulen ts)")
        have n4: "len ts \<le> length ?pd" unfolding p_def by simp
        from rec_write_step [OF w4 scf n4 o3] obtain rd od where
          sd: "sd = ?S ?d rd od" and od: "set od \<subseteq> set (outcomes s)"
          and f4: "Fail \<notin> set (outcomes s) \<longrightarrow> rv4 = int (len ts)" by blast
        obtain rv5 se where w5: "spwrite sd (RecFd fd) (buf ts) (len ts) (J_DISKTFIXSIZE + ulen ts + p) = (rv5, se)"
          by (cases "spwrite sd (RecFd fd) (buf ts) (len ts) (J_DISKTFIXSIZE + ulen ts + p)")
        from rec_write_step [OF w5 sd wb od] obtain re oe where
          se: "se = ?S ?d re oe" and oe: "set oe \<subseteq> set (outcomes s)"
          and f5: "Fail \<notin> set (outcomes s) \<longrightarrow> rv5 = int (len ts)" by blast
        from c w1 t1 w2 t2 w3 t3 ltsc w4 w5 have u:
          "(ok, ts1, s1) = (if rv4 \<noteq> int (len ts) then (False, tsc, sd)
                            else (rv5 = int (len ts), tsc, se))"
          by (auto simp: commit_build_def split: if_splits)
        show ?thesis
        proof (cases "rv4 = int (len ts)")
          case False
          with u have "ok = False" "ts1 = tsc" "s1 = sd" by simp_all
          with sd od f4 False tsc dalt show ?thesis
            by (intro exI [of _ od] exI [of _ rd] exI [of _ pd] exI [of _ pl]
                  exI [of _ ?d]) simp
        next
          case True
          with u have "ok = (rv5 = int (len ts))" "ts1 = tsc" "s1 = se" by simp_all
          with se oe f5 tsc dalt pdv plv show ?thesis
            by (intro exI [of _ oe] exI [of _ re] exI [of _ pd] exI [of _ pl]
                  exI [of _ ?d]) simp
        qed
      qed
    qed
  qed
qed


lemma commit_prepare_Inr:
  assumes c: "commit_prepare ts s = Inr (fd, ts1, s1)"
  shows "\<exists>o' jf. set o' \<subseteq> set (outcomes s) \<and> fd \<noteq> 0 \<and> 4 \<le> length (jfile s) \<and>
           length (jfile s) \<le> length jf \<and>
           ts1 = ts\<lparr>tid := fd, name := Some fd\<rparr> \<and>
           s1 = s\<lparr>dlocks := (if nolock s then dlocks s
                               else insert (offset ts, len ts) (dlocks s)),
                  jfile := jf, jlocked := False, recs := (recs s)(fd \<mapsto> []),
                  ropen := insert fd (ropen s), outcomes := o'\<rparr>"
proof -
  obtain m0 s0 where p0: "pop s = (m0, s0)" by (cases "pop s")
  obtain i sa where g: "get_tid s0 = (i, sa)" by (cases "get_tid s0")
  obtain m1 sb where p1: "pop sa = (m1, sb)" by (cases "pop sa")
  obtain m2 sc where p2: "pop sb = (m2, sc)" by (cases "pop sb")
  let ?s4 = "sc\<lparr>recs := (recs sc)(i \<mapsto> []), ropen := insert i (ropen sc)\<rparr>"
  let ?ts1 = "ts\<lparr>tid := i, name := Some i\<rparr>"
  let ?s5 = "if nolock ?s4 then ?s4
             else ?s4\<lparr>dlocks := insert (offset ?ts1, len ?ts1) (dlocks ?s4)\<rparr>"
  obtain m3 sd where p3: "pop ?s5 = (m3, sd)" by (cases "pop ?s5")
  from c p0 g p1 p2 p3 have e: "m0 \<noteq> Fail" "i \<noteq> 0" "m1 \<noteq> Fail" "m2 \<noteq> Fail" "m3 \<noteq> Fail"
    "fd = i" "ts1 = ?ts1" "s1 = sd"
    by (auto simp: commit_prepare_def commit_open_def Let_def split: if_splits)
  from pop_res [OF p0] obtain o0 where
    s0: "s0 = s\<lparr>outcomes := o0\<rparr>" "set o0 \<subseteq> set (outcomes s)" by blast
  from get_tid_res [OF g] obtain oa jf where
    ga: "sa = s0\<lparr>jfile := jf, jlocked := False, outcomes := oa\<rparr> \<and>
         set oa \<subseteq> set (outcomes s0) \<and> length (jfile s0) \<le> length jf \<and>
         (i \<noteq> 0 \<longrightarrow> 4 \<le> length (jfile s0))" by blast
  from pop_res [OF p1] obtain ob where
    sb: "sb = sa\<lparr>outcomes := ob\<rparr>" "set ob \<subseteq> set (outcomes sa)" by blast
  from pop_res [OF p2] obtain oc where
    sc: "sc = sb\<lparr>outcomes := oc\<rparr>" "set oc \<subseteq> set (outcomes sb)" by blast
  from pop_res [OF p3] obtain od where
    sd: "sd = ?s5\<lparr>outcomes := od\<rparr>" "set od \<subseteq> set (outcomes ?s5)" by blast
  have sub: "set od \<subseteq> set (outcomes s)"
    using sd(2) sc sb ga s0 by (auto split: if_splits)
  have "s1 = s\<lparr>dlocks := (if nolock s then dlocks s
                               else insert (offset ts, len ts) (dlocks s)),
                  jfile := jf, jlocked := False, recs := (recs s)(i \<mapsto> []),
                  ropen := insert i (ropen s), outcomes := od\<rparr>"
    using e(8) sd(1) sc(1) sb(1) ga s0(1) by simp
  with sub e ga s0 show ?thesis
    by (intro exI [of _ od] exI [of _ jf]) simp
qed


lemma J_COMMITED_neq0: "J_COMMITED \<noteq> 0"
  by (simp add: J_COMMITED_def)


lemma commit_exit_eq:
  "commit_exit fd ts s =
     (if flags ts AND J_COMMITED \<noteq> 0 then int (len ts) else - 1, ts,
      s\<lparr>dlocks := (if nolock s then dlocks s else dlocks s - {(offset ts, len ts)}),
        ropen := ropen s - {fd}\<rparr>)"
  by (simp add: commit_exit_def Let_def)



lemma commit_open_Inl:
  assumes c: "commit_open s = Inl s1"
  shows "dfile s1 = dfile s \<and> dpos s1 = dpos s \<and> recs s1 = recs s \<and>
         dlocks s1 = dlocks s \<and> ropen s1 = ropen s \<and> nolock s1 = nolock s"
proof -
  obtain m0 s0 where p0: "pop s = (m0, s0)" by (cases "pop s")
  obtain i sa where g: "get_tid s0 = (i, sa)" by (cases "get_tid s0")
  obtain m1 sb where p1: "pop sa = (m1, sb)" by (cases "pop sa")
  obtain m2 sc where p2: "pop sb = (m2, sc)" by (cases "pop sb")
  from pop_res [OF p0] obtain o0 where s0: "s0 = s\<lparr>outcomes := o0\<rparr>" by blast
  from get_tid_res [OF g] obtain oa jf where
    "sa = s0\<lparr>jfile := jf, jlocked := False, outcomes := oa\<rparr>" by blast
  with s0 have sa: "sa = s\<lparr>jfile := jf, jlocked := False, outcomes := oa\<rparr>" by simp
  from pop_res [OF p1] obtain ob where "sb = sa\<lparr>outcomes := ob\<rparr>" by blast
  with sa have sb: "sb = s\<lparr>jfile := jf, jlocked := False, outcomes := ob\<rparr>" by simp
  from pop_res [OF p2] obtain oc where "sc = sb\<lparr>outcomes := oc\<rparr>" by blast
  with sb have sc: "sc = s\<lparr>jfile := jf, jlocked := False, outcomes := oc\<rparr>" by simp
  from c p0 g p1 p2 have "s1 = s0 \<or> s1 = sa \<or> s1 = sb \<or> s1 = sc"
    by (auto simp: commit_open_def split: if_splits)
  then show ?thesis unfolding s0 sa sb sc by auto
qed

section \<open>Runs of commit and rollback on a four-byte file\<close>


lemma commit_undo_eval:
  "(case jtrans_commit t_undo w_bb of (rv, ts, s) \<Rightarrow>
      (rv, tid ts, flags ts, dfile s, jfile s, recs s 1, outcomes s)) =
   (2, 1, 1, [65, 66, 66, 65], [1, 0, 0, 0],
    Some [1, 0, 0, 0,  1, 0, 0, 0,  2, 0, 0, 0,  0, 0, 0, 0,  1, 0, 0, 0, 0, 0, 0, 0,
          66, 66,  65, 65], [])"
  by code_simp

lemma rollback_undo_eval:
  "(case jtrans_rollback (fst (snd (jtrans_commit t_bb w_four)))
           (snd (snd (jtrans_commit t_bb w_four))\<lparr>outcomes := Full # outcomes w_bb\<rparr>) of
      None \<Rightarrow> None
    | Some (rv, s) \<Rightarrow> Some (rv, dfile s, jfile s, recs s 1 \<noteq> None)) =
   Some (2, [65, 66, 66, 65], [1, 0, 0, 0], True)"
  by code_simp

lemma commit_unflagged_eval:
  "(case jtrans_commit (t_undo\<lparr>flags := 0\<rparr>) w_bb of (rv, ts, s) \<Rightarrow> (rv, dfile s)) =
   (- 1, [65, 66, 66, 65])"
  by code_simp

lemma jwrite_zero_eval:
  "(case jwrite w_four [] 0 of (rv, s) \<Rightarrow> (rv, dfile s, dpos s)) = (0, [65, 65, 65, 65], 0)"
  by code_simp

section \<open>The result of a commit\<close>

text \<open>
  C1 (\<open>jtrans_commit\<close>, lines 368-392). The claim: when \<open>jtrans_commit\<close> returns success, the
  bytes of the data file at \<open>[offset, offset + len)\<close> are the new data \<open>ts->buf\<close>, and on a
  path where the apply write does not complete the flag \<open>J_COMMITED\<close> is not set and the
  call reports failure. The code decides its result at \<open>exit\<close> by the test
  \<open>ts->flags & J_COMMITED\<close>, under the comment "return the lenght only if it was
  properly commited", and nothing clears the flag on entry. A transaction that enters
  with the flag set, as the one \<open>jtrans_rollback\<close> builds with \<open>newts.flags = ts->flags\<close>
  (line 409), returns \<open>ts->len\<close> whatever happened. At \<open>t_undo\<close> in \<open>w_bb\<close> the apply write
  fails: the result is \<open>len = 2\<close>, the flag is set, and the data file still holds \<open>BB\<close>
  at offsets 1 and 2, where the new data is \<open>AA\<close>.
\<close>

theorem commit_flag_preset_apply_fails:
  "fst (jtrans_commit t_undo w_bb) = int (len t_undo) \<and>
   flags (fst (snd (jtrans_commit t_undo w_bb))) AND J_COMMITED \<noteq> 0 \<and>
   take (len t_undo) (drop (offset t_undo) (dfile (snd (snd (jtrans_commit t_undo w_bb))))) =
     [66, 66] \<and>
   take (len t_undo) (buf t_undo) = [65, 65] \<and>
   dfile (snd (snd (jtrans_commit t_undo w_bb))) = dfile w_bb"
  using commit_undo_eval
  by (simp add: t_undo_def w_bb_def jtrans_init_def J_COMMITED_def split: prod.splits)

text \<open>
  C4 (\<open>jtrans_commit\<close>, lines 373-392). The claim: after a commit that returns success,
  the record file named by the id of the transaction is gone from the journal directory
  and the id has been released by \<open>free_tid\<close>. At \<open>t_undo\<close> in \<open>w_bb\<close> the apply write fails
  and \<open>goto exit\<close> skips \<open>free_tid\<close> and \<open>unlink\<close>; since the flag \<open>J_COMMITED\<close> was set on
  entry the call returns 2 all the same. The id is 1, its record file is still there,
  and the counter of the lock file still is 1.
\<close>

theorem commit_flag_preset_record_stays:
  "0 \<le> fst (jtrans_commit t_undo w_bb) \<and>
   tid (fst (snd (jtrans_commit t_undo w_bb))) = 1 \<and>
   recs (snd (snd (jtrans_commit t_undo w_bb))) 1 \<noteq> None \<and>
   le32_dec (jfile (snd (snd (jtrans_commit t_undo w_bb)))) = 1"
proof -
  have "le32_dec [1, 0, 0, 0] = 1" by code_simp
  with commit_undo_eval show ?thesis by (simp split: prod.splits)
qed

text \<open>
  C10 (\<open>jtrans_commit\<close>, lines 387-392, and \<open>jwrite\<close>, lines 556-561). The claim: the
  result is \<open>ts->len\<close> on success and \<open>-1\<close> on every failure, a commit of length zero returns
  0, and this is why \<open>jwrite\<close> tests \<open>rv >= 0\<close>. At \<open>t_undo\<close> in \<open>w_bb\<close> the commit fails at
  the apply write, leaves the data file as it was, and returns 2, not \<open>-1\<close>. The same
  transaction with the flag clear returns \<open>-1\<close> there, and \<open>jwrite\<close> of zero bytes returns 0.
\<close>

theorem commit_return_value:
  "fst (jtrans_commit t_undo w_bb) = 2 \<and>
   dfile (snd (snd (jtrans_commit t_undo w_bb))) = dfile w_bb \<and>
   fst (jtrans_commit (t_undo\<lparr>flags := 0\<rparr>) w_bb) = - 1 \<and>
   dfile (snd (snd (jtrans_commit (t_undo\<lparr>flags := 0\<rparr>) w_bb))) = dfile w_bb \<and>
   fst (jwrite w_four [] 0) = 0"
  using commit_undo_eval commit_unflagged_eval jwrite_zero_eval
  by (simp add: w_bb_def split: prod.splits)

section \<open>The file offset after \<open>jwritev\<close>\<close>

text \<open>
  C9 (\<open>jwritev\<close>, lines 588-633). The claim: a successful \<open>jwritev\<close> advances the file
  offset by the number of bytes written, the sum of the lengths of the vectors. The code
  calls \<open>lseek(fs->fd, count, SEEK_CUR)\<close> with \<open>count\<close> the number of vectors; \<open>jwrite\<close>,
  where \<open>count\<close> is the number of bytes, has the same line. With two vectors of 3 and 2
  bytes \<open>jwritev\<close> returns 5, the file holds the five bytes, and the offset has moved by
  2; \<open>jwrite\<close> of the same five bytes moves it by 5.
\<close>

theorem jwritev_advances_by_count:
  "fst (jwritev w_four [[1, 2, 3], [4, 5]]) = 5 \<and>
   dfile (snd (jwritev w_four [[1, 2, 3], [4, 5]])) = [1, 2, 3, 4, 5] \<and>
   dpos (snd (jwritev w_four [[1, 2, 3], [4, 5]])) = dpos w_four + 2 \<and>
   fst (jwrite w_four [1, 2, 3, 4, 5] 5) = 5 \<and>
   dpos (snd (jwrite w_four [1, 2, 3, 4, 5] 5)) = dpos w_four + 5"
proof -
  have a: "(case jwritev w_four [[1, 2, 3], [4, 5]] of (rv, s) \<Rightarrow> (rv, dfile s, dpos s)) =
     (5, [1, 2, 3, 4, 5], 2)" by code_simp
  have b: "(case jwrite w_four [1, 2, 3, 4, 5] 5 of (rv, s) \<Rightarrow> (rv, dpos s)) = (5, 5)"
    by code_simp
  from a b show ?thesis by (simp add: w_four_def split: prod.splits)
qed

section \<open>Rollback\<close>




section \<open>A commit that fails before the record is complete\<close>

text \<open>
  C3 as stated fails. The header write of the record fails (the seventh call): the
  commit returns \<open>-1\<close>, the record file of id 2 is still in the journal directory, and the
  counter of the lock file stays at 2, where it was 1 before. And with \<open>BB\<close> written at
  offset 3 of the four-byte file, the write of the saved bytes to the record fails after
  \<open>ftruncate\<close> has extended the data file: it is one zero byte longer.
\<close>

theorem commit_abort_leaves_record:
  "fst (jtrans_commit t_bb (w_four\<lparr>outcomes := replicate 6 Full @ [Fail]\<rparr>)) = - 1 \<and>
   recs (snd (snd (jtrans_commit t_bb (w_four\<lparr>outcomes := replicate 6 Full @ [Fail]\<rparr>)))) 2
     = Some [] \<and>
   recs w_four 2 = None \<and>
   le32_dec (jfile (snd (snd (jtrans_commit t_bb
      (w_four\<lparr>outcomes := replicate 6 Full @ [Fail]\<rparr>))))) = 2 \<and>
   le32_dec (jfile w_four) = 1 \<and>
   fst (jtrans_commit (t_bb\<lparr>offset := 3\<rparr>) (w_four\<lparr>outcomes := replicate 10 Full @ [Fail]\<rparr>))
     = - 1 \<and>
   dfile (snd (snd (jtrans_commit (t_bb\<lparr>offset := 3\<rparr>)
      (w_four\<lparr>outcomes := replicate 10 Full @ [Fail]\<rparr>)))) = [65, 65, 65, 65, 0] \<and>
   dfile w_four = [65, 65, 65, 65]"
proof -
  have a: "(case jtrans_commit t_bb (w_four\<lparr>outcomes := replicate 6 Full @ [Fail]\<rparr>) of
              (rv, ts, s) \<Rightarrow> (rv, recs s 2, le32_dec (jfile s))) = (- 1, Some [], 2)"
    by code_simp
  have b: "(case jtrans_commit (t_bb\<lparr>offset := 3\<rparr>)
                   (w_four\<lparr>outcomes := replicate 10 Full @ [Fail]\<rparr>) of
              (rv, ts, s) \<Rightarrow> (rv, dfile s)) = (- 1, [65, 65, 65, 65, 0])"
    by code_simp
  have c: "le32_dec (jfile w_four) = 1" by code_simp
  from a b c show ?thesis by (simp add: w_four_def split: prod.splits)
qed

text \<open>
  C3, amended: \<open>jtrans_commit\<close> on a transaction whose flag \<open>J_COMMITED\<close> is clear on entry,
  with its buffers present and lengths below \<open>2^31\<close>. When it fails before the record file
  is open (no memory for the name, no id, \<open>get_jtfile\<close> or \<open>open\<close> failing) it returns \<open>-1\<close>
  and the data file, the record files and the locks are as before. When a write, a read
  or an allocation fails while the record is built, it returns \<open>-1\<close>, the record file is
  closed and the lock on the range of the data file is released; the record file is not
  unlinked and the id is not freed (the lock file is as \<open>get_tid\<close> left it); the data file
  is as before or extended with zero bytes up to \<open>offset + len\<close>. Nothing is said of a
  failure to allocate the header buffer (line 297).
\<close>

theorem commit_abort_before_fsync:
  assumes c: "jtrans_commit ts s = (rv, ts', s')"
    and fl: "flags ts AND J_COMMITED = 0"
    and wb: "len ts \<le> length (buf ts)"
    and wu: "\<forall>ud. udata ts = Some ud \<longrightarrow> ulen ts \<le> length ud"
    and sz: "len ts < 2 ^ 31" "ulen ts < 2 ^ 31"
  shows "(commit_open s = Inl s0 \<longrightarrow>
            rv = - 1 \<and> dfile s' = dfile s \<and> recs s' = recs s \<and>
            dlocks s' = dlocks s \<and> ropen s' = ropen s) \<and>
         (commit_prepare ts s = Inr (fd, ts1, s1) \<and> commit_build fd ts1 s1 = (False, ts2, s2) \<longrightarrow>
            rv = - 1 \<and> fd \<notin> ropen s' \<and>
            dlocks s' = (if nolock s then dlocks s else dlocks s - {(offset ts, len ts)}) \<and>
            (dfile s' = dfile s \<or>
             dfile s' = dfile s @ replicate (offset ts + len ts - length (dfile s)) 0) \<and>
            recs s' fd \<noteq> None \<and> jfile s' = jfile s1)"
proof (rule conjI; rule impI)
  assume a: "commit_open s = Inl s0"
  then have "commit_prepare ts s = Inl (ts, s0)"
    by (simp add: commit_prepare_def)
  with c have e: "rv = - 1" "s' = s0" by (simp_all add: jtrans_commit_def)
  from commit_open_Inl [OF a] e
  show "rv = - 1 \<and> dfile s' = dfile s \<and> recs s' = recs s \<and>
            dlocks s' = dlocks s \<and> ropen s' = ropen s"
    by simp
next
  assume a: "commit_prepare ts s = Inr (fd, ts1, s1) \<and> commit_build fd ts1 s1 = (False, ts2, s2)"
  then have prep: "commit_prepare ts s = Inr (fd, ts1, s1)"
    and bf: "commit_build fd ts1 s1 = (False, ts2, s2)" by simp_all
  let ?dl = "if nolock s then dlocks s else insert (offset ts, len ts) (dlocks s)"
  from commit_prepare_Inr [OF prep] obtain o1 jf1 where
    pr: "set o1 \<subseteq> set (outcomes s) \<and> fd \<noteq> 0 \<and> 4 \<le> length (jfile s) \<and>
         length (jfile s) \<le> length jf1 \<and> ts1 = ts\<lparr>tid := fd, name := Some fd\<rparr> \<and>
         s1 = s\<lparr>dlocks := ?dl, jfile := jf1, jlocked := False, recs := (recs s)(fd \<mapsto> []),
                ropen := insert fd (ropen s), outcomes := o1\<rparr>" by blast
  then have ts1: "ts1 = ts\<lparr>tid := fd, name := Some fd\<rparr>"
    and s1: "s1 = s\<lparr>dlocks := ?dl, jfile := jf1, jlocked := False, recs := (recs s)(fd \<mapsto> []),
                ropen := insert fd (ropen s), outcomes := o1\<rparr>" by simp_all
  have r1: "recs s1 fd = Some []" using s1 by simp
  have wb1: "len ts1 \<le> length (buf ts1)" using wb ts1 by simp
  have wu1: "\<forall>ud. udata ts1 = Some ud \<longrightarrow> ulen ts1 \<le> length ud" using wu ts1 by simp
  from commit_build_res [OF bf r1 wb1 wu1] obtain o2 r2 pd pl d2 where
    br: "set o2 \<subseteq> set (outcomes s1) \<and> ts2 = ts1\<lparr>pdata := pd, plen := pl\<rparr> \<and>
         s2 = s1\<lparr>dfile := d2, recs := (recs s1)(fd \<mapsto> r2), outcomes := o2\<rparr> \<and>
         (d2 = dfile s1 \<or>
          d2 = dfile s1 @ replicate (offset ts1 + len ts1 - length (dfile s1)) 0)"
    by blast
  have ts2: "ts2 = ts\<lparr>tid := fd, name := Some fd, pdata := pd, plen := pl\<rparr>"
    using br ts1 by simp
  have s2: "s2 = s\<lparr>dfile := d2, dlocks := ?dl, jfile := jf1, jlocked := False,
                  recs := (recs s)(fd \<mapsto> r2), ropen := insert fd (ropen s), outcomes := o2\<rparr>"
    using br s1 by simp
  have d2: "d2 = dfile s \<or> d2 = dfile s @ replicate (offset ts + len ts - length (dfile s)) 0"
    using br ts1 s1 by simp
  from c prep bf have e: "(rv, ts', s') = commit_exit fd ts2 s2"
    by (simp add: jtrans_commit_def)
  have f2: "flags ts2 AND J_COMMITED = 0" "offset ts2 = offset ts" "len ts2 = len ts"
    using ts2 fl by simp_all
  from e f2 have rv: "rv = - 1"
    and s': "s' = s2\<lparr>dlocks := (if nolock s2 then dlocks s2
                                   else dlocks s2 - {(offset ts, len ts)}),
                      ropen := ropen s2 - {fd}\<rparr>"
    by (simp_all add: commit_exit_eq)
  have "fd \<notin> ropen s'" unfolding s' by simp
  moreover have "dlocks s' = (if nolock s then dlocks s else dlocks s - {(offset ts, len ts)})"
    unfolding s' s2 by simp
  moreover have "dfile s' = d2" unfolding s' s2 by simp
  moreover have "recs s' fd \<noteq> None" unfolding s' s2 by simp
  moreover have "jfile s' = jfile s1" unfolding s' s2 s1 by simp
  ultimately show "rv = - 1 \<and> fd \<notin> ropen s' \<and>
            dlocks s' = (if nolock s then dlocks s else dlocks s - {(offset ts, len ts)}) \<and>
            (dfile s' = dfile s \<or>
             dfile s' = dfile s @ replicate (offset ts + len ts - length (dfile s)) 0) \<and>
            recs s' fd \<noteq> None \<and> jfile s' = jfile s1"
    using rv d2 by simp
qed

theorem commit_abort_before_fsync_witness:
  "fst (jtrans_commit t_bb (w_four\<lparr>outcomes := [Full, Fail]\<rparr>)) = - 1 \<and>
   dfile (snd (snd (jtrans_commit t_bb (w_four\<lparr>outcomes := [Full, Fail]\<rparr>)))) =
     [65, 65, 65, 65] \<and>
   fst (jtrans_commit t_bb (w_four\<lparr>outcomes := replicate 6 Full @ [Fail]\<rparr>)) = - 1 \<and>
   2 \<notin> ropen (snd (snd (jtrans_commit t_bb (w_four\<lparr>outcomes := replicate 6 Full @ [Fail]\<rparr>)))) \<and>
   dlocks (snd (snd (jtrans_commit t_bb (w_four\<lparr>outcomes := replicate 6 Full @ [Fail]\<rparr>)))) = {} \<and>
   recs (snd (snd (jtrans_commit t_bb (w_four\<lparr>outcomes := replicate 6 Full @ [Fail]\<rparr>)))) 2
     \<noteq> None"
proof -
  let ?w1 = "w_four\<lparr>outcomes := [Full, Fail]\<rparr>"
  let ?w2 = "w_four\<lparr>outcomes := replicate 6 Full @ [Fail]\<rparr>"
  let ?c1 = "jtrans_commit t_bb ?w1" and ?c2 = "jtrans_commit t_bb ?w2"
  let ?p = "projr (commit_prepare t_bb ?w2)"
  let ?b = "commit_build (fst ?p) (fst (snd ?p)) (snd (snd ?p))"
  have c1: "?c1 = (fst ?c1, fst (snd ?c1), snd (snd ?c1))" by simp
  have c2: "?c2 = (fst ?c2, fst (snd ?c2), snd (snd ?c2))" by simp
  have fl: "flags t_bb AND J_COMMITED = 0" by (simp add: t_bb_def jtrans_init_def)
  have wb: "len t_bb \<le> length (buf t_bb)" by (simp add: t_bb_def)
  have wu: "\<forall>ud. udata t_bb = Some ud \<longrightarrow> ulen t_bb \<le> length ud"
    by (simp add: t_bb_def jtrans_init_def)
  have sz: "len t_bb < 2 ^ 31" "ulen t_bb < 2 ^ 31" by (simp_all add: t_bb_def jtrans_init_def)
  have "isl (commit_open ?w1)" by code_simp
  then have o1: "commit_open ?w1 = Inl (projl (commit_open ?w1))" by simp
  have "\<not> isl (commit_prepare t_bb ?w2)" by code_simp
  then have p2: "commit_prepare t_bb ?w2 = Inr (fst ?p, fst (snd ?p), snd (snd ?p))" by simp
  have "\<not> fst ?b" by code_simp
  then have b2: "?b = (False, fst (snd ?b), snd (snd ?b))" by (simp add: prod_eq_iff)
  have fd: "fst ?p = 2" by code_simp
  from commit_abort_before_fsync [OF c1 fl wb wu sz, of "projl (commit_open ?w1)"] o1
  have r1: "fst ?c1 = - 1 \<and> dfile (snd (snd ?c1)) = dfile ?w1" by simp
  from commit_abort_before_fsync [OF c2 fl wb wu sz,
      of _ "fst ?p" "fst (snd ?p)" "snd (snd ?p)" "fst (snd ?b)" "snd (snd ?b)"] p2 b2
  have r2: "fst ?c2 = - 1 \<and> fst ?p \<notin> ropen (snd (snd ?c2)) \<and>
            dlocks (snd (snd ?c2)) =
              (if nolock ?w2 then dlocks ?w2 else dlocks ?w2 - {(offset t_bb, len t_bb)}) \<and>
            recs (snd (snd ?c2)) (fst ?p) \<noteq> None"
    by simp
  from r1 r2 fd show ?thesis by (simp add: w_four_def)
qed

end
